theory Spec2Isabelle
  imports Main "HOL-Library.Sublist" "HOL-Library.AList"
begin

section \<open>JavaScript strings\<close>

text \<open>
  Strings are lists of 8-bit characters, so the model covers file names, keys and album
  identifiers written in Latin-1.  \<open>String.prototype.toLowerCase\<close> maps the ASCII capitals
  and the Latin-1 capitals (0xC0 to 0xDE, without the multiplication sign 0xD7) to the
  character 32 places further on and leaves every other character of that range alone.
\<close>

definition lower_char :: "char \<Rightarrow> char" where
  "lower_char c =
     (let n = (of_char c :: nat)
      in if (65 \<le> n \<and> n \<le> 90) \<or> (192 \<le> n \<and> n \<le> 222 \<and> n \<noteq> 215)
         then char_of (n + 32) else c)"

definition toLowerCase :: "string \<Rightarrow> string" where
  "toLowerCase s = map lower_char s"

text \<open>
  A regular expression with the flag \<open>i\<close> (and without \<open>u\<close>) compares characters after
  canonicalisation, which never identifies a character outside ASCII with an ASCII one:
  only the ASCII capitals fold onto the letters of the pattern.
\<close>

definition ascii_fold :: "char \<Rightarrow> char" where
  "ascii_fold c =
     (let n = (of_char c :: nat) in if 65 \<le> n \<and> n \<le> 90 then char_of (n + 32) else c)"

text \<open>\<open>String.prototype.includes\<close>: the argument occurs as a contiguous run.\<close>

definition str_includes :: "string \<Rightarrow> string \<Rightarrow> bool" where
  "str_includes s t = sublist t s"

text \<open>
  The test \<open>/\.(jpeg|jpg|png|gif|webp|avif)$/i.test(name)\<close>, used for the remote listing
  and for both local enumerations.
\<close>

definition image_extensions :: "string list" where
  "image_extensions = [''jpeg'', ''jpg'', ''png'', ''gif'', ''webp'', ''avif'']"

definition isImageName :: "string \<Rightarrow> bool" where
  "isImageName name =
     list_ex (\<lambda>e. suffix (CHR ''.'' # e) (map ascii_fold name)) image_extensions"

section \<open>Album identifiers\<close>

text \<open>The character class \<open>[a-z0-9-]\<close> and its letters and digits \<open>[a-z0-9]\<close>.\<close>

definition alnum_char :: "char \<Rightarrow> bool" where
  "alnum_char c =
     (let n = (of_char c :: nat) in (97 \<le> n \<and> n \<le> 122) \<or> (48 \<le> n \<and> n \<le> 57))"

definition id_char :: "char \<Rightarrow> bool" where
  "id_char c = (alnum_char c \<or> c = CHR ''-'')"

text \<open>
  The grammar \<open>/^[a-z0-9-]+$/\<close> that the prompt of the album CLI enforces on an album
  identifier.
\<close>

definition matches_id_grammar :: "string \<Rightarrow> bool" where
  "matches_id_grammar s = (s \<noteq> [] \<and> list_all id_char s)"

text \<open>\<open>replace(/[^a-z0-9-]/g, '-')\<close>: every character outside the class becomes a hyphen.\<close>

definition replace_disallowed :: "string \<Rightarrow> string" where
  "replace_disallowed s = map (\<lambda>c. if id_char c then c else CHR ''-'') s"

text \<open>
  \<open>replace(/--+/g, '-')\<close>: scanning from the left, a position where two hyphens start
  matches the whole run of hyphens (the \<open>+\<close> is greedy), which is replaced by one hyphen;
  any other character is copied.
\<close>

function (sequential) collapse_hyphens :: "string \<Rightarrow> string" where
  "collapse_hyphens [] = []"
| "collapse_hyphens [c] = [c]"
| "collapse_hyphens (c # d # cs) =
     (if c = CHR ''-'' \<and> d = CHR ''-''
      then CHR ''-'' # collapse_hyphens (dropWhile (\<lambda>x. x = CHR ''-'') cs)
      else c # collapse_hyphens (d # cs))"
  by pat_completeness auto
termination
  by (relation "measure length") (auto simp: le_imp_less_Suc length_dropWhile_le less_Suc_eq_le le_SucI)

text \<open>
  \<open>replace(/^-|-$/g, '')\<close>: the first alternative matches a hyphen at position 0 only, the
  second a hyphen that is the last character; the scan goes on after a match, so both a
  leading and a trailing hyphen are removed.
\<close>

definition strip_edge_hyphens :: "string \<Rightarrow> string" where
  "strip_edge_hyphens s =
     (let s1 = (case s of [] \<Rightarrow> [] | c # cs \<Rightarrow> if c = CHR ''-'' then cs else s)
      in if s1 \<noteq> [] \<and> last s1 = CHR ''-'' then butlast s1 else s1)"

text \<open>The identifier the uploader derives from a folder name.\<close>

definition derive_id :: "string \<Rightarrow> string" where
  "derive_id folderName =
     strip_edge_hyphens (collapse_hyphens (replace_disallowed (toLowerCase folderName)))"

text \<open>The object key \<open>`${albumId}/${filename}`\<close>.\<close>

definition r2Key :: "string \<Rightarrow> string \<Rightarrow> string" where
  "r2Key albumId filename = albumId @ ''/'' @ filename"

section \<open>Values exchanged with the providers\<close>

text \<open>
  An exception or a rejected promise is a value: \<open>status\<close> and \<open>message\<close> are the two
  properties of an error object the scripts read, either of which may be undefined.
\<close>

datatype js_error = JsError (status: "int option") (message: "string option")

text \<open>What a template string prints for \<open>error.message\<close>.\<close>

definition message_text :: "js_error \<Rightarrow> string" where
  "message_text e = (case message e of None \<Rightarrow> ''undefined'' | Some m \<Rightarrow> m)"

text \<open>The metadata document of an album (the field \<open>private\<close> is \<open>is_private\<close> here).\<close>

record album =
  title :: string
  description :: string
  cover_key :: string
  allow_downloads :: bool
  is_private :: bool

text \<open>
  The parsed body of a metadata document.  Whatever JSON is stored comes back, so the
  scripts' tests \<open>if (existingMetadata)\<close> are tests of JavaScript truthiness.
\<close>

datatype json = JNull | JBool bool | JNumber int | JString string | JAlbum album

fun truthy :: "json \<Rightarrow> bool" where
  "truthy JNull = False"
| "truthy (JBool b) = b"
| "truthy (JNumber n) = (n \<noteq> 0)"
| "truthy (JString s) = (s \<noteq> [])"
| "truthy (JAlbum a) = True"

text \<open>
  What \<open>kv.namespaces.values.get\<close> does: it rejects, or resolves to a falsy value, or
  resolves to a response whose \<open>json()\<close> rejects or yields the parsed content.
\<close>

datatype kv_get_outcome = GetRejects js_error | GetNothing | GetResponse "js_error + json"

text \<open>An object of the bucket: body, content type and the two custom attributes.\<close>

record s3object =
  Body :: string
  ContentType :: string
  Metadata_width :: string
  Metadata_height :: string

text \<open>The fields the scripts read of a ListObjectsV2 and of a DeleteObjects response.\<close>

record list_response =
  Contents :: "string list"
  IsTruncated :: bool

record delete_response =
  Deleted :: "string list"
  Errors :: "(string \<times> string) list"

text \<open>What \<open>sizeOf(buffer)\<close> returns when it does not throw.\<close>

record dimensions =
  width :: "int option"
  height :: "int option"

section \<open>The world outside the scripts\<close>

text \<open>
  Calls to the object store and writes to the metadata store are recorded in a trace,
  together with the prompts answered and the console output the properties speak about.
  \<open>ReportDeleted n\<close> stands for the line \<open>Successfully deleted n images from R2\<close> and
  \<open>Summary p s f\<close> for the three lines of tallies after an upload (processed, succeeded,
  failed); purely decorative \<open>console.log\<close> lines are not recorded, and messages are given
  without the emoji and the quotation marks of the source.
\<close>

datatype event =
    KvGet string
  | KvUpdate string album
  | KvDelete string
  | S3List string
  | S3Put string s3object
  | S3Delete "string list"
  | Prompt string bool
  | Ask string
  | Info string
  | Warn string
  | Error string
  | ReportDeleted int
  | Summary int int int
  | Exit int

text \<open>
  Each call that reaches a provider takes the next entry of \<open>faults\<close>: the call is
  rejected with the given error, or it goes through (also when the list is used up).
\<close>

datatype fault = NoFault | Rejects js_error

record world =
  bucket :: "(string \<times> s3object) list"
  locked :: "string list"
  faults :: "fault list"
  trace :: "event list"

text \<open>
  The environment of one run: configuration, the metadata store's answer to a read, the
  local file system and the image-size library.  None of it is changed by the scripts;
  the content of the metadata store is not modelled beyond the answer to a read, and its
  writes are recorded in the trace.
\<close>

record env =
  CLOUDFLARE_API_TOKEN :: "string option"
  KV_NAMESPACE_ID :: "string option"
  kv_values_get :: "string \<Rightarrow> kv_get_outcome"
  glob_star :: "string \<Rightarrow> js_error + string list"
  isDirectory :: "string \<Rightarrow> js_error + bool"
  readdir :: "string \<Rightarrow> js_error + string list"
  readFile :: "string \<Rightarrow> js_error + string"
  sizeOf :: "string \<Rightarrow> js_error + dimensions"

definition emit :: "event \<Rightarrow> world \<Rightarrow> world" where
  "emit e w = w\<lparr>trace := trace w @ [e]\<rparr>"

definition next_fault :: "world \<Rightarrow> fault \<times> world" where
  "next_fault w = (case faults w of [] \<Rightarrow> (NoFault, w) | f # fs \<Rightarrow> (f, w\<lparr>faults := fs\<rparr>))"

subsection \<open>The object store\<close>

text \<open>
  The bucket lists its entries in listing order, each key once.  One ListObjectsV2
  request without a continuation token returns the first page of the keys under the
  prefix, at most \<open>max_keys\<close> of them (the service never returns more than 1000 keys in
  one response), and says whether more are left.
\<close>

definition max_keys :: nat where
  "max_keys = 1000"

definition s3_list :: "string \<Rightarrow> world \<Rightarrow> (js_error + list_response) \<times> world" where
  "s3_list pfx w =
     (case next_fault (emit (S3List pfx) w) of
        (Rejects e, w1) \<Rightarrow> (Inl e, w1)
      | (NoFault, w1) \<Rightarrow>
          (let keys = filter (prefix pfx) (map fst (bucket w1))
           in (Inr \<lparr>Contents = take max_keys keys, IsTruncated = (max_keys < length keys)\<rparr>, w1)))"

text \<open>PutObject stores the object under the key, replacing what was there.\<close>

definition s3_put :: "string \<Rightarrow> s3object \<Rightarrow> world \<Rightarrow> (js_error + unit) \<times> world" where
  "s3_put key obj w =
     (case next_fault (emit (S3Put key obj) w) of
        (Rejects e, w1) \<Rightarrow> (Inl e, w1)
      | (NoFault, w1) \<Rightarrow> (Inr (), w1\<lparr>bucket := AList.update key obj (bucket w1)\<rparr>))"

text \<open>
  DeleteObjects removes the keys of the batch; a key the store refuses to delete (here: a
  locked one) is reported under \<open>Errors\<close> and stays.
\<close>

definition s3_delete :: "string list \<Rightarrow> world \<Rightarrow> (js_error + delete_response) \<times> world" where
  "s3_delete keys w =
     (case next_fault (emit (S3Delete keys) w) of
        (Rejects e, w1) \<Rightarrow> (Inl e, w1)
      | (NoFault, w1) \<Rightarrow>
          (let gone = filter (\<lambda>k. k \<notin> set (locked w1)) keys;
               refused = filter (\<lambda>k. k \<in> set (locked w1)) keys
           in (Inr \<lparr>Deleted = gone, Errors = map (\<lambda>k. (k, ''AccessDenied'')) refused\<rparr>,
               w1\<lparr>bucket := filter (\<lambda>kv. fst kv \<notin> set gone) (bucket w1)\<rparr>)))"

subsection \<open>The metadata store\<close>

text \<open>
  The metadata client exists when the API token is set, and the functions use it only
  when the namespace is set as well.  A read is answered by the environment; a write or a
  deletion is rejected or goes through.
\<close>

definition kv_configured :: "env \<Rightarrow> bool" where
  "kv_configured env =
     ((case CLOUDFLARE_API_TOKEN env of None \<Rightarrow> False | Some t \<Rightarrow> t \<noteq> [])
      \<and> (case KV_NAMESPACE_ID env of None \<Rightarrow> False | Some n \<Rightarrow> n \<noteq> []))"

definition kvKey :: "string \<Rightarrow> string" where
  "kvKey albumId = ''album:'' @ albumId"

definition kv_get :: "env \<Rightarrow> string \<Rightarrow> world \<Rightarrow> kv_get_outcome \<times> world" where
  "kv_get env key w = (kv_values_get env key, emit (KvGet key) w)"

definition kv_update :: "string \<Rightarrow> album \<Rightarrow> world \<Rightarrow> (js_error + unit) \<times> world" where
  "kv_update key doc w =
     (case next_fault (emit (KvUpdate key doc) w) of
        (Rejects e, w1) \<Rightarrow> (Inl e, w1)
      | (NoFault, w1) \<Rightarrow> (Inr (), w1))"

definition kv_delete :: "string \<Rightarrow> world \<Rightarrow> (js_error + unit) \<times> world" where
  "kv_delete key w =
     (case next_fault (emit (KvDelete key) w) of
        (Rejects e, w1) \<Rightarrow> (Inl e, w1)
      | (NoFault, w1) \<Rightarrow> (Inr (), w1))"

section \<open>The album CLI: metadata functions\<close>

text \<open>The test of both catch clauses: \<open>error.status === 404 || error.message?.includes("10009")\<close>.\<close>

definition is_not_found :: "js_error \<Rightarrow> bool" where
  "is_not_found e =
     (status e = Some 404 \<or> (case message e of None \<Rightarrow> False | Some m \<Rightarrow> str_includes m ''10009''))"

definition getKvMetadata_catch :: "js_error \<Rightarrow> world \<Rightarrow> (js_error + json) \<times> world" where
  "getKvMetadata_catch e w =
     (if is_not_found e then (Inr JNull, w)
      else (Inr JNull, emit (Warn (''Warning: Error fetching KV metadata: '' @ message_text e)) w))"

definition getKvMetadata :: "env \<Rightarrow> string \<Rightarrow> world \<Rightarrow> (js_error + json) \<times> world" where
  "getKvMetadata env albumId w =
     (if \<not> kv_configured env then (Inr JNull, w)
      else case kv_get env (kvKey albumId) w of
          (GetRejects e, w1) \<Rightarrow> getKvMetadata_catch e w1
        | (GetNothing, w1) \<Rightarrow> (Inr JNull, w1)
        | (GetResponse (Inl e), w1) \<Rightarrow> getKvMetadata_catch e w1
        | (GetResponse (Inr content), w1) \<Rightarrow> (Inr content, w1))"

definition updateKvMetadata :: "env \<Rightarrow> string \<Rightarrow> album \<Rightarrow> world \<Rightarrow> (js_error + bool) \<times> world" where
  "updateKvMetadata env albumId metadata w =
     (if \<not> kv_configured env
      then (Inr False,
            emit (Error ''Missing Cloudflare credentials (CLOUDFLARE_API_TOKEN, KV_NAMESPACE_ID)'') w)
      else case kv_update (kvKey albumId) metadata w of
          (Inr u, w1) \<Rightarrow>
            (Inr True, emit (Info (''Successfully updated KV metadata for album:'' @ albumId)) w1)
        | (Inl e, w1) \<Rightarrow>
            (Inr False, emit (Error (''Error updating KV metadata: '' @ message_text e)) w1))"

definition deleteKvMetadata :: "env \<Rightarrow> string \<Rightarrow> world \<Rightarrow> (js_error + bool) \<times> world" where
  "deleteKvMetadata env albumId w =
     (if \<not> kv_configured env
      then (Inr False, emit (Warn ''Missing Cloudflare credentials, skipping KV deletion'') w)
      else case kv_delete (kvKey albumId) w of
          (Inr u, w1) \<Rightarrow>
            (Inr True, emit (Info (''Successfully deleted KV metadata for album:'' @ albumId)) w1)
        | (Inl e, w1) \<Rightarrow>
            (if is_not_found e
             then (Inr True, emit (Info (''No KV metadata found for album:'' @ albumId)) w1)
             else (Inr False, emit (Error (''Error deleting KV metadata: '' @ message_text e)) w1)))"

section \<open>The album CLI: listing and deleting images\<close>

text \<open>
  \<open>listR2Images\<close> sends one ListObjectsV2 command with the prefix and no continuation
  token, and reads \<open>Contents\<close> of the one response.
\<close>

definition listR2Images :: "string \<Rightarrow> world \<Rightarrow> (js_error + string list) \<times> world" where
  "listR2Images albumId w =
     (case s3_list (albumId @ ''/'') w of
        (Inr response, w1) \<Rightarrow> (Inr (filter isImageName (Contents response)), w1)
      | (Inl e, w1) \<Rightarrow>
          (Inr [], emit (Warn (''Warning: Could not list existing R2 images: '' @ message_text e)) w1))"

definition batchSize :: nat where
  "batchSize = 1000"

definition report_errors :: "(string \<times> string) list \<Rightarrow> world \<Rightarrow> world" where
  "report_errors errs w =
     (if errs \<noteq> []
      then foldl (\<lambda>w' km. emit (Error (''  - '' @ fst km @ '': '' @ snd km)) w')
             (emit (Error ''Some deletions failed:'') w) errs
      else w)"

text \<open>
  The loop \<open>for (let i = 0; i < imageKeys.length; i += batchSize)\<close> of \<open>deleteR2Images\<close>;
  a rejected DeleteObjects call leaves the loop for the catch clause of the function.
\<close>

function delete_batches ::
  "string list \<Rightarrow> nat \<Rightarrow> int \<Rightarrow> world \<Rightarrow> (js_error + int) \<times> world" where
  "delete_batches imageKeys i deletedCount w =
     (if i < length imageKeys
      then (case s3_delete (take batchSize (drop i imageKeys)) w of
              (Inl e, w1) \<Rightarrow> (Inl e, w1)
            | (Inr response, w1) \<Rightarrow>
                delete_batches imageKeys (i + batchSize)
                  (deletedCount + int (length (Deleted response)))
                  (report_errors (Errors response) w1))
      else (Inr deletedCount, w))"
  by pat_completeness auto
termination
  by (relation "measure (\<lambda>(imageKeys, i, deletedCount, w). length imageKeys - i)")
     (auto simp: batchSize_def)

declare delete_batches.simps [simp del]

definition deleteR2Images :: "string \<Rightarrow> world \<Rightarrow> (js_error + bool) \<times> world" where
  "deleteR2Images albumId w =
     (case listR2Images albumId w of
        (Inl e, w1) \<Rightarrow>
          (Inr False, emit (Error (''Error deleting R2 images: '' @ message_text e)) w1)
      | (Inr imageKeys, w1) \<Rightarrow>
          (if length imageKeys = 0
           then (Inr True, emit (Info ''No images found to delete.'') w1)
           else case delete_batches imageKeys 0 0 w1 of
               (Inl e, w2) \<Rightarrow>
                 (Inr False, emit (Error (''Error deleting R2 images: '' @ message_text e)) w2)
             | (Inr deletedCount, w2) \<Rightarrow> (Inr True, emit (ReportDeleted deletedCount) w2)))"

text \<open>\<open>deleteAlbum\<close>, with the operator's answer to the one confirmation prompt.\<close>

definition deleteAlbum :: "env \<Rightarrow> bool \<Rightarrow> string \<Rightarrow> world \<Rightarrow> (js_error + unit) \<times> world" where
  "deleteAlbum env confirmDelete albumId w =
     (case getKvMetadata env albumId w of
        (Inl e, w1) \<Rightarrow> (Inl e, w1)
      | (Inr existingMetadata, w1) \<Rightarrow>
     (case listR2Images albumId w1 of
        (Inl e, w2) \<Rightarrow> (Inl e, w2)
      | (Inr existingImages, w2) \<Rightarrow>
          (if \<not> truthy existingMetadata \<and> length existingImages = 0
           then (Inr (), emit (Info ''Album not found (no metadata or images exist).'') w2)
           else (let w3 = emit (Prompt ''confirmDelete'' confirmDelete) w2 in
             if \<not> confirmDelete then (Inr (), emit (Info ''Deletion cancelled.'') w3)
             else
              (case (if length existingImages > 0 then deleteR2Images albumId w3
                     else (Inr True, w3)) of
                 (Inl e, w4) \<Rightarrow> (Inl e, w4)
               | (Inr r, w4) \<Rightarrow>
              (case (if truthy existingMetadata then deleteKvMetadata env albumId w4
                     else (Inr True, w4)) of
                 (Inl e, w5) \<Rightarrow> (Inl e, w5)
               | (Inr k, w5) \<Rightarrow>
                   (Inr (), emit (Info (''Album '' @ albumId @ '' has been completely deleted.'')) w5)))))))"

section \<open>Inspecting and uploading images\<close>

text \<open>\<open>Number.prototype.toString\<close> on an integer: its decimal digits.\<close>

function digits_of :: "nat \<Rightarrow> string" where
  "digits_of n =
     (if n < 10 then [char_of (48 + n)] else digits_of (n div 10) @ [char_of (48 + n mod 10)])"
  by pat_completeness auto
termination
  by (relation "measure id") auto

declare digits_of.simps [simp del]

definition number_toString :: "int \<Rightarrow> string" where
  "number_toString n = (if n < 0 then CHR ''-'' # digits_of (nat (- n)) else digits_of (nat n))"

text \<open>
  \<open>path.join\<close> of a directory and a name, and \<open>path.extname\<close> of a file name without
  directory part: the text from the last dot on, empty when there is no dot, when the only
  dot comes first, and for \<open>..\<close>.
\<close>

definition path_join :: "string \<Rightarrow> string \<Rightarrow> string" where
  "path_join dir name = dir @ ''/'' @ name"

definition extname :: "string \<Rightarrow> string" where
  "extname p =
     (let after = length (takeWhile (\<lambda>c. c \<noteq> CHR ''.'') (rev p))
      in if after = length p then []
         else (let startDot = length p - after - 1
               in if startDot = 0 \<or> p = ''..'' then [] else drop startDot p))"

text \<open>
  The two scripts share the text of their upload loop up to the catch clause for the
  dimensions: \<open>AlbumCli\<close> is the album CLI (\<open>manageAlbum\<close>), \<open>Uploader\<close> the bulk
  uploader (\<open>main\<close> of \<open>uploader/main.js\<close>).
\<close>

datatype entry = AlbumCli | Uploader

text \<open>The dimensions the catch clause assigns.\<close>

fun fallback_dimensions :: "entry \<Rightarrow> string \<Rightarrow> int \<times> int" where
  "fallback_dimensions AlbumCli filename = (1200, 800)"
| "fallback_dimensions Uploader filename =
     (if str_includes (toLowerCase filename) ''portrait'' then (800, 1200)
      else if str_includes (toLowerCase filename) ''square'' then (1000, 1000)
      else (1200, 800))"

fun dimension_warning :: "entry \<Rightarrow> string \<Rightarrow> js_error \<Rightarrow> string" where
  "dimension_warning AlbumCli filename e =
     ''  Warning: Could not determine dimensions for '' @ filename @ ''. Using defaults.''"
| "dimension_warning Uploader filename e =
     ''  Warning: Could not determine dimensions for '' @ filename
       @ ''. Using default/placeholder. '' @ message_text e"

text \<open>
  The block \<open>try { const dimensions = sizeOf(fileBuffer); ... } catch (dimError) { ... }\<close>
  of the loop: \<open>sizeOf\<close> may throw, and the block throws itself when a dimension is
  missing or not positive.
\<close>

definition inspect ::
  "entry \<Rightarrow> env \<Rightarrow> string \<Rightarrow> string \<Rightarrow> world \<Rightarrow> (js_error + int \<times> int) \<times> world" where
  "inspect en env filename fileBuffer w =
     (let caught = (\<lambda>dimError.
            (Inr (fallback_dimensions en filename),
             emit (Warn (dimension_warning en filename dimError)) w))
      in case sizeOf env fileBuffer of
           Inl e \<Rightarrow> caught e
         | Inr dims \<Rightarrow>
             (let wd = (case width dims of None \<Rightarrow> 0 | Some x \<Rightarrow> x);
                  ht = (case height dims of None \<Rightarrow> 0 | Some y \<Rightarrow> y)
              in if wd > 0 \<and> ht > 0 then (Inr (wd, ht), w)
                 else caught (JsError None (Some ''Could not get valid dimensions from image-size.''))))"

text \<open>The input of the PutObjectCommand for one file.\<close>

definition put_input :: "string \<Rightarrow> string \<Rightarrow> int \<times> int \<Rightarrow> s3object" where
  "put_input filename fileBuffer dims =
     \<lparr>Body = fileBuffer,
      ContentType = ''image/'' @ drop 1 (toLowerCase (extname filename)),
      Metadata_width = number_toString (fst dims),
      Metadata_height = number_toString (snd dims)\<rparr>"

text \<open>
  The loop \<open>for (const filename of imageFiles)\<close>.  Reading the file is outside every
  try block, so a rejected read ends the function; a rejected put is caught and logged.
\<close>

fun upload_files ::
  "entry \<Rightarrow> env \<Rightarrow> string \<Rightarrow> string \<Rightarrow> string list \<Rightarrow> int \<Rightarrow> world
   \<Rightarrow> (js_error + int) \<times> world" where
  "upload_files en env dir albumId [] uploadedCount w = (Inr uploadedCount, w)"
| "upload_files en env dir albumId (filename # rest) uploadedCount w =
     (case readFile env (path_join dir filename) of
        Inl e \<Rightarrow> (Inl e, w)
      | Inr fileBuffer \<Rightarrow>
          (case inspect en env filename fileBuffer w of
             (Inl e, w1) \<Rightarrow> (Inl e, w1)
           | (Inr dims, w1) \<Rightarrow>
               (case s3_put (r2Key albumId filename) (put_input filename fileBuffer dims) w1 of
                  (Inr u, w2) \<Rightarrow> upload_files en env dir albumId rest (uploadedCount + 1) w2
                | (Inl e, w2) \<Rightarrow>
                    upload_files en env dir albumId rest uploadedCount
                      (emit (Error (''  ERROR: Failed to upload '' @ filename @ '': ''
                                     @ message_text e)) w2))))"

fun no_images_warning :: "entry \<Rightarrow> string \<Rightarrow> string" where
  "no_images_warning AlbumCli dir = ''No image files found in '' @ dir @ ''.''"
| "no_images_warning Uploader dir = ''No image files found in '' @ dir @ ''. Exiting.''"

text \<open>
  From \<open>fs.readdir\<close> to the tallies, as both scripts have it.  The result says whether
  the loop ran (\<open>False\<close>: no image file was found, where the album CLI returns and the
  uploader exits).
\<close>

definition upload_images ::
  "entry \<Rightarrow> env \<Rightarrow> string \<Rightarrow> string \<Rightarrow> world \<Rightarrow> (js_error + bool) \<times> world" where
  "upload_images en env dir albumId w =
     (case readdir env dir of
        Inl e \<Rightarrow> (Inl e, w)
      | Inr files \<Rightarrow>
          (let imageFiles = filter isImageName files
           in if length imageFiles = 0
              then (Inr False, emit (Warn (no_images_warning en dir)) w)
              else (case upload_files en env dir albumId imageFiles 0 w of
                      (Inl e, w1) \<Rightarrow> (Inl e, w1)
                    | (Inr uploadedCount, w1) \<Rightarrow>
                        (Inr True,
                         emit (Summary (int (length imageFiles)) uploadedCount
                                 (int (length imageFiles) - uploadedCount)) w1))))"

text \<open>The loop that keeps the directories among the entries of the base directory.\<close>

fun albumFolders :: "env \<Rightarrow> string \<Rightarrow> string list \<Rightarrow> js_error + string list" where
  "albumFolders env base [] = Inr []"
| "albumFolders env base (entry # rest) =
     (case isDirectory env (path_join base entry) of
        Inl e \<Rightarrow> Inl e
      | Inr d \<Rightarrow>
          (case albumFolders env base rest of
             Inl e \<Rightarrow> Inl e
           | Inr folders \<Rightarrow> Inr (if d then entry # folders else folders)))"

section \<open>The album CLI: creating and updating\<close>

text \<open>The operator's answers to the prompts of \<open>manageAlbum\<close>.\<close>

record metadata_answers =
  q_title :: string
  q_description :: string
  q_coverImage :: string
  q_allowDownloads :: bool
  q_private :: bool

record answers =
  manageMetadata :: bool
  metadata :: metadata_answers
  confirmKv :: bool
  uploadImages :: bool
  localBaseDir :: string
  selectedFolder :: string
  confirmUpload :: bool

text \<open>The block \<open>if (manageMetadata) { ... }\<close>.\<close>

definition manage_metadata ::
  "env \<Rightarrow> answers \<Rightarrow> string \<Rightarrow> world \<Rightarrow> (js_error + unit) \<times> world" where
  "manage_metadata env ans albumId w =
     (case getKvMetadata env albumId w of
        (Inl e, w1) \<Rightarrow> (Inl e, w1)
      | (Inr existingMetadata, w1) \<Rightarrow>
     (case listR2Images albumId w1 of
        (Inl e, w2) \<Rightarrow> (Inl e, w2)
      | (Inr existingImages, w2) \<Rightarrow>
          (let w3 = emit (Ask ''metadata'') w2;
               kvMetadata =
                 \<lparr>title = q_title (metadata ans),
                  description = q_description (metadata ans),
                  cover_key = q_coverImage (metadata ans),
                  allow_downloads = q_allowDownloads (metadata ans),
                  is_private = q_private (metadata ans)\<rparr>;
               w4 = emit (Prompt ''confirmKv'' (confirmKv ans)) w3
           in if confirmKv ans
              then (case updateKvMetadata env albumId kvMetadata w4 of
                      (Inl e, w5) \<Rightarrow> (Inl e, w5)
                    | (Inr saved, w5) \<Rightarrow> (Inr (), w5))
              else (Inr (), w4))))"

definition manageAlbum ::
  "env \<Rightarrow> answers \<Rightarrow> string \<Rightarrow> world \<Rightarrow> (js_error + unit) \<times> world" where
  "manageAlbum env ans albumId w =
     (case (if manageMetadata ans
            then manage_metadata env ans albumId (emit (Prompt ''manageMetadata'' True) w)
            else (Inr (), emit (Prompt ''manageMetadata'' False) w)) of
        (Inl e, w1) \<Rightarrow> (Inl e, w1)
      | (Inr u, w1) \<Rightarrow>
          (let w2 = emit (Prompt ''uploadImages'' (uploadImages ans)) w1
           in if \<not> uploadImages ans then (Inr (), w2)
              else (let w3 = emit (Ask ''localBaseDir'') w2
                in case glob_star env (localBaseDir ans) of
                     Inl e \<Rightarrow> (Inl e, w3)
                   | Inr allEntriesInBaseDir \<Rightarrow>
                (case albumFolders env (localBaseDir ans) allEntriesInBaseDir of
                     Inl e \<Rightarrow> (Inl e, w3)
                   | Inr folders \<Rightarrow>
                       (if length folders = 0
                        then (Inr (), emit (Error (''No folders found in '' @ localBaseDir ans)) w3)
                        else (let w4 = emit (Ask ''selectedFolder'') w3;
                                  localFolderPath = path_join (localBaseDir ans) (selectedFolder ans);
                                  w5 = emit (Prompt ''confirmUpload'' (confirmUpload ans)) w4
                              in if \<not> confirmUpload ans
                                 then (Inr (), emit (Info ''Upload cancelled.'') w5)
                                 else (case upload_images AlbumCli env localFolderPath albumId w5 of
                                         (Inl e, w6) \<Rightarrow> (Inl e, w6)
                                       | (Inr looped, w6) \<Rightarrow> (Inr (), w6))))))))"

section \<open>The bulk uploader\<close>

text \<open>
  \<open>main\<close> of the uploader, with the operator's three answers: the base directory, the
  folder chosen from the list (its identifier is derived by the script) and the
  confirmation.  \<open>process.exit(n)\<close> is the event \<open>Exit n\<close>, after which nothing happens.
\<close>

definition uploader_main ::
  "env \<Rightarrow> string \<Rightarrow> string \<Rightarrow> bool \<Rightarrow> world \<Rightarrow> (js_error + unit) \<times> world" where
  "uploader_main env baseDir folderName confirmed w =
     (let w1 = emit (Ask ''localBaseDir'') w
      in case glob_star env baseDir of
           Inl e \<Rightarrow> (Inl e, w1)
         | Inr allEntriesInBaseDir \<Rightarrow>
      (case albumFolders env baseDir allEntriesInBaseDir of
           Inl e \<Rightarrow> (Inl e, w1)
         | Inr folders \<Rightarrow>
             (if length folders = 0
              then (Inr (), emit (Exit 1) (emit (Error (''No album folders found in '' @ baseDir)) w1))
              else (let w2 = emit (Ask ''selectedAlbum'') w1;
                        albumId = derive_id folderName;
                        localAlbumPath = path_join baseDir folderName;
                        w3 = emit (Prompt ''confirmUpload'' confirmed) w2
                    in if \<not> confirmed
                       then (Inr (), emit (Exit 0) (emit (Info ''Upload cancelled.'') w3))
                       else (case upload_images Uploader env localAlbumPath albumId w3 of
                               (Inl e, w4) \<Rightarrow> (Inl e, w4)
                             | (Inr looped, w4) \<Rightarrow>
                                 (if looped then (Inr (), w4) else (Inr (), emit (Exit 0) w4)))))))"

section \<open>Reading traces\<close>

text \<open>The events a run added to the trace, and the kinds of event the properties name.\<close>

definition new_events :: "world \<Rightarrow> world \<Rightarrow> event list" where
  "new_events w w' = drop (length (trace w)) (trace w')"

fun is_s3_call :: "event \<Rightarrow> bool" where
  "is_s3_call (S3List p) = True"
| "is_s3_call (S3Put k obj) = True"
| "is_s3_call (S3Delete ks) = True"
| "is_s3_call e = False"

fun is_s3_put :: "event \<Rightarrow> bool" where
  "is_s3_put (S3Put k obj) = True"
| "is_s3_put e = False"

fun is_s3_delete :: "event \<Rightarrow> bool" where
  "is_s3_delete (S3Delete ks) = True"
| "is_s3_delete e = False"

fun is_kv_delete :: "event \<Rightarrow> bool" where
  "is_kv_delete (KvDelete k) = True"
| "is_kv_delete e = False"

definition is_destructive :: "event \<Rightarrow> bool" where
  "is_destructive e = (is_s3_delete e \<or> is_kv_delete e)"

fun is_warning :: "event \<Rightarrow> bool" where
  "is_warning (Warn m) = True"
| "is_warning e = False"

fun is_error_log :: "event \<Rightarrow> bool" where
  "is_error_log (Error m) = True"
| "is_error_log e = False"

text \<open>The keys of the put calls in a list of events, in order.\<close>

fun put_keys :: "event list \<Rightarrow> string list" where
  "put_keys [] = []"
| "put_keys (S3Put k obj # evs) = k # put_keys evs"
| "put_keys (e # evs) = put_keys evs"

text \<open>\<open>adds P w w'\<close>: the second trace continues the first, by events that all satisfy \<open>P\<close>.\<close>

definition adds :: "(event \<Rightarrow> bool) \<Rightarrow> world \<Rightarrow> world \<Rightarrow> bool" where
  "adds P w w' = (prefix (trace w) (trace w') \<and> list_all P (new_events w w'))"

text \<open>The entry of \<open>faults\<close> that the next call takes, and whether it rejects the call.\<close>

definition head_fault :: "world \<Rightarrow> fault" where
  "head_fault w = (case faults w of [] \<Rightarrow> NoFault | f # fs \<Rightarrow> f)"

fun is_reject :: "fault \<Rightarrow> bool" where
  "is_reject (Rejects e) = True"
| "is_reject NoFault = False"

text \<open>
  The events each function may add: a listing, the loop of \<open>deleteR2Images\<close> over the
  keys it was given, \<open>deleteR2Images\<close> for an album, a read, a deletion and a write of
  metadata, and the two reads at the start of \<open>deleteAlbum\<close> and \<open>manageAlbum\<close>.
\<close>

fun list_event :: "event \<Rightarrow> bool" where
  "list_event (S3List p) = True"
| "list_event (Warn m) = True"
| "list_event e = False"

fun batch_event :: "string list \<Rightarrow> event \<Rightarrow> bool" where
  "batch_event keys (S3Delete batch) = (set batch \<subseteq> set keys \<and> length batch \<le> batchSize)"
| "batch_event keys (Error m) = True"
| "batch_event keys e = False"

fun delete_event :: "string \<Rightarrow> event \<Rightarrow> bool" where
  "delete_event albumId (S3List p) = True"
| "delete_event albumId (S3Delete batch) =
     (list_all isImageName batch \<and> list_all (prefix (albumId @ ''/'')) batch
      \<and> length batch \<le> batchSize)"
| "delete_event albumId (Warn m) = True"
| "delete_event albumId (Error m) = True"
| "delete_event albumId (Info m) = True"
| "delete_event albumId (ReportDeleted n) = True"
| "delete_event albumId e = False"

fun kv_read_event :: "event \<Rightarrow> bool" where
  "kv_read_event (KvGet k) = True"
| "kv_read_event (Warn m) = True"
| "kv_read_event e = False"

fun kv_delete_event :: "event \<Rightarrow> bool" where
  "kv_delete_event (KvDelete k) = True"
| "kv_delete_event (Warn m) = True"
| "kv_delete_event (Info m) = True"
| "kv_delete_event (Error m) = True"
| "kv_delete_event e = False"

fun kv_update_event :: "event \<Rightarrow> bool" where
  "kv_update_event (KvUpdate k doc) = True"
| "kv_update_event (Info m) = True"
| "kv_update_event (Error m) = True"
| "kv_update_event e = False"

definition read_event :: "event \<Rightarrow> bool" where
  "read_event e = (kv_read_event e \<or> list_event e)"

section \<open>What one turn of the upload loop does\<close>

text \<open>
  The dimensions of a buffer can be determined when \<open>sizeOf\<close> returns a positive width
  and a positive height for it.
\<close>

definition decodable :: "env \<Rightarrow> string \<Rightarrow> bool" where
  "decodable env fileBuffer =
     (case sizeOf env fileBuffer of
        Inl e \<Rightarrow> False
      | Inr dims \<Rightarrow>
          (case (width dims, height dims) of
             (Some x, Some y) \<Rightarrow> 0 < x \<and> 0 < y
           | _ \<Rightarrow> False))"

text \<open>
  What the loop does with one file depends on the environment only: the error, if any,
  that makes the block for the dimensions reach its catch clause, the dimensions it ends
  with, and so the object it tries to put.
\<close>

definition dimension_error :: "env \<Rightarrow> string \<Rightarrow> js_error option" where
  "dimension_error env fileBuffer =
     (case sizeOf env fileBuffer of
        Inl e \<Rightarrow> Some e
      | Inr dims \<Rightarrow>
          (if (case width dims of None \<Rightarrow> 0 | Some x \<Rightarrow> x) > 0
              \<and> (case height dims of None \<Rightarrow> 0 | Some y \<Rightarrow> y) > 0
           then None
           else Some (JsError None (Some ''Could not get valid dimensions from image-size.''))))"

definition dimensions_of :: "entry \<Rightarrow> env \<Rightarrow> string \<Rightarrow> string \<Rightarrow> int \<times> int" where
  "dimensions_of en env filename fileBuffer =
     (case sizeOf env fileBuffer of
        Inl e \<Rightarrow> fallback_dimensions en filename
      | Inr dims \<Rightarrow>
          (if (case width dims of None \<Rightarrow> 0 | Some x \<Rightarrow> x) > 0
              \<and> (case height dims of None \<Rightarrow> 0 | Some y \<Rightarrow> y) > 0
           then (case width dims of None \<Rightarrow> 0 | Some x \<Rightarrow> x,
                 case height dims of None \<Rightarrow> 0 | Some y \<Rightarrow> y)
           else fallback_dimensions en filename))"

text \<open>
  A file is readable when \<open>fs.readFile\<close> resolves for it.  \<open>planned_puts\<close> lists the puts
  of a run of the loop over a list of files: one per file, up to the first file that
  cannot be read.
\<close>

definition readable :: "env \<Rightarrow> string \<Rightarrow> string \<Rightarrow> bool" where
  "readable env dir filename =
     (case readFile env (path_join dir filename) of Inl e \<Rightarrow> False | Inr fileBuffer \<Rightarrow> True)"

fun planned_puts ::
  "entry \<Rightarrow> env \<Rightarrow> string \<Rightarrow> string \<Rightarrow> string list \<Rightarrow> (string \<times> s3object) list" where
  "planned_puts en env dir albumId [] = []"
| "planned_puts en env dir albumId (filename # rest) =
     (case readFile env (path_join dir filename) of
        Inl e \<Rightarrow> []
      | Inr fileBuffer \<Rightarrow>
          (r2Key albumId filename,
           put_input filename fileBuffer (dimensions_of en env filename fileBuffer))
          # planned_puts en env dir albumId rest)"

text \<open>The object a run puts under a key of the album, if the file behind the key can be read.\<close>

definition planned_object ::
  "entry \<Rightarrow> env \<Rightarrow> string \<Rightarrow> string \<Rightarrow> string \<Rightarrow> s3object option" where
  "planned_object en env dir albumId key =
     (let filename = drop (length albumId + 1) key
      in case readFile env (path_join dir filename) of
           Inl e \<Rightarrow> None
         | Inr fileBuffer \<Rightarrow>
             Some (put_input filename fileBuffer (dimensions_of en env filename fileBuffer)))"

text \<open>
  The world after one turn of the loop, for a file that was read: the warning of the
  dimensions block if any, the put, and the error log when the put is rejected.
\<close>

definition after_file ::
  "entry \<Rightarrow> env \<Rightarrow> string \<Rightarrow> string \<Rightarrow> string \<Rightarrow> world \<Rightarrow> world" where
  "after_file en env albumId filename fileBuffer w =
     (let warned = (case dimension_error env fileBuffer of
                      None \<Rightarrow> []
                    | Some e \<Rightarrow> [Warn (dimension_warning en filename e)]);
          key = r2Key albumId filename;
          obj = put_input filename fileBuffer (dimensions_of en env filename fileBuffer)
      in case head_fault w of
           NoFault \<Rightarrow>
             w\<lparr>bucket := AList.update key obj (bucket w), faults := tl (faults w),
               trace := trace w @ warned @ [S3Put key obj]\<rparr>
         | Rejects e \<Rightarrow>
             w\<lparr>faults := tl (faults w),
               trace := trace w @ warned @ [S3Put key obj,
                 Error (''  ERROR: Failed to upload '' @ filename @ '': '' @ message_text e)]\<rparr>)"

section \<open>Example inputs\<close>

text \<open>
  A store with nothing in it, and an environment in which the metadata store answers a
  read with a server error, the base directory \<open>albums\<close> holds the folder \<open>trip\<close> with two
  image files and a text file, a file's content is its path, and only \<open>a.jpg\<close> has a
  header that can be decoded (800 by 600).
\<close>

definition empty_world :: world where
  "empty_world = \<lparr>bucket = [], locked = [], faults = [], trace = []\<rparr>"

definition example_env :: env where
  "example_env =
     \<lparr>CLOUDFLARE_API_TOKEN = Some ''token'',
      KV_NAMESPACE_ID = Some ''namespace'',
      kv_values_get = (\<lambda>key. GetRejects (JsError (Some 500) (Some ''Internal Server Error''))),
      glob_star = (\<lambda>dir. Inr [''trip'']),
      isDirectory = (\<lambda>path. Inr True),
      readdir = (\<lambda>dir. Inr [''a.jpg'', ''portrait-b.png'', ''notes.txt'']),
      readFile = (\<lambda>path. Inr path),
      sizeOf = (\<lambda>buffer. if buffer = ''albums/trip/a.jpg''
                          then Inr \<lparr>width = Some 800, height = Some 600\<rparr>
                          else Inl (JsError None (Some ''unsupported file type'')))\<rparr>"

text \<open>
  A bucket with one image and one text file under the prefix \<open>trip/\<close>, and an environment
  in which the album \<open>trip\<close> has a metadata document.
\<close>

definition example_object :: s3object where
  "example_object =
     \<lparr>Body = ''bytes'', ContentType = ''image/jpg'', Metadata_width = ''1200'',
      Metadata_height = ''800''\<rparr>"

definition trip_world :: world where
  "trip_world =
     \<lparr>bucket = [(''trip/a.jpg'', example_object), (''trip/notes.txt'', example_object)],
      locked = [], faults = [], trace = []\<rparr>"

definition trip_env :: env where
  "trip_env =
     example_env\<lparr>kv_values_get := (\<lambda>key. GetResponse (Inr (JAlbum
        \<lparr>title = ''Trip'', description = [], cover_key = ''trip/a.jpg'',
         allow_downloads = True, is_private = False\<rparr>)))\<rparr>"

text \<open>
  A bucket holding \<open>n\<close> images of the album \<open>trip\<close> and nothing else; the keys differ in
  length.  No key is locked and no call is rejected.
\<close>

definition photo_key :: "nat \<Rightarrow> string" where
  "photo_key i = ''trip/'' @ replicate i CHR ''x'' @ ''.jpg''"

definition big_album :: "nat \<Rightarrow> world" where
  "big_album n =
     \<lparr>bucket = map (\<lambda>i. (photo_key i, example_object)) [0..<n],
      locked = [], faults = [], trace = []\<rparr>"

text \<open>Answers to the prompts of \<open>manageAlbum\<close> that ask for metadata and for no upload.\<close>

definition metadata_only :: answers where
  "metadata_only =
     \<lparr>manageMetadata = True,
      metadata = \<lparr>q_title = ''Trip'', q_description = ''Two days'', q_coverImage = ''trip/a.jpg'',
                  q_allowDownloads = True, q_private = False\<rparr>,
      confirmKv = True, uploadImages = False, localBaseDir = [], selectedFolder = [],
      confirmUpload = False\<rparr>"

text \<open>A store whose first call will be rejected.\<close>

definition flaky_world :: world where
  "flaky_world = empty_world\<lparr>faults := [Rejects (JsError None (Some ''socket hang up''))]\<rparr>"

section \<open>Properties of the derived album identifier\<close>

lemma id_char_replace: "list_all id_char (replace_disallowed s)"
  by (induction s) (auto simp: replace_disallowed_def id_char_def)

lemma collapse_Nil_iff: "collapse_hyphens s = [] \<longleftrightarrow> s = []"
  by (induction s rule: collapse_hyphens.induct) auto

lemma hd_collapse: "hd (collapse_hyphens s) = hd s"
  by (induction s rule: collapse_hyphens.induct) auto

lemma strip_step1: "sublist (case t of [] \<Rightarrow> [] | c # cs \<Rightarrow> if c = CHR ''-'' then cs else t) t"
  by (auto simp: sublist_Cons_right split: list.splits)

lemma strip_sublist: "sublist (strip_edge_hyphens t) t"
proof -
  define s1 where "s1 = (case t of [] \<Rightarrow> [] | c # cs \<Rightarrow> if c = CHR ''-'' then cs else t)"
  have a: "sublist s1 t"
    unfolding s1_def by (rule strip_step1)
  have b: "sublist (if s1 \<noteq> [] \<and> last s1 = CHR ''-'' then butlast s1 else s1) s1"
    by (auto intro: prefix_imp_sublist prefixeq_butlast)
  from b a show ?thesis
    unfolding strip_edge_hyphens_def s1_def [symmetric] Let_def
    by (rule sublist_order.order.trans)
qed

lemma no_double_Cons: "\<not> sublist ''--'' (c # cs) \<Longrightarrow> c = CHR ''-'' \<Longrightarrow> \<not> prefix ''-'' cs"
  by (cases cs) (auto simp: sublist_Cons_right)

lemma no_double_snoc:
  assumes "\<not> sublist ''--'' (cs @ [c])" and "c = CHR ''-''"
  shows "\<not> suffix ''-'' cs"
proof
  assume "suffix ''-'' cs"
  then obtain zs where "cs = zs @ ''-''" by (auto simp: suffix_def)
  with assms(2) have "cs @ [c] = zs @ ''--'' @ []" by simp
  then have "sublist ''--'' (cs @ [c])" unfolding sublist_def by blast
  with assms(1) show False by simp
qed

lemma strip_edges:
  assumes "\<not> sublist ''--'' t"
  shows "\<not> prefix ''-'' (strip_edge_hyphens t) \<and> \<not> suffix ''-'' (strip_edge_hyphens t)"
proof -
  define s1 where "s1 = (case t of [] \<Rightarrow> [] | c # cs \<Rightarrow> if c = CHR ''-'' then cs else t)"
  have s1t: "sublist s1 t"
    unfolding s1_def by (rule strip_step1)
  have nd: "\<not> sublist ''--'' s1"
    using assms s1t sublist_order.order.trans by blast
  have p: "\<not> prefix ''-'' s1"
    using assms no_double_Cons by (auto simp: s1_def split: list.splits)
  show ?thesis
  proof (cases "s1 \<noteq> [] \<and> last s1 = CHR ''-''")
    case True
    then obtain b where b: "s1 = b @ ''-''"
      by (metis append_butlast_last_id)
    have "\<not> suffix ''-'' b" using nd b no_double_snoc by auto
    moreover have "\<not> prefix ''-'' b" using p b by (cases b) auto
    ultimately show ?thesis using True b
      unfolding strip_edge_hyphens_def s1_def [symmetric] Let_def by simp
  next
    case False
    then have "\<not> suffix ''-'' s1" by (auto simp: suffix_def)
    with p False show ?thesis
      unfolding strip_edge_hyphens_def s1_def [symmetric] Let_def by auto
  qed
qed

lemma collapse_filter:
  "filter (\<lambda>c. c \<noteq> CHR ''-'') (collapse_hyphens s) = filter (\<lambda>c. c \<noteq> CHR ''-'') s"
proof (induction s rule: collapse_hyphens.induct)
  case (3 c d cs)
  have "filter (\<lambda>c. c \<noteq> CHR ''-'') (dropWhile (\<lambda>x. x = CHR ''-'') cs) = filter (\<lambda>c. c \<noteq> CHR ''-'') cs"
    by (induction cs) auto
  with 3 show ?case by auto
qed simp_all

lemma strip_filter:
  "filter (\<lambda>c. c \<noteq> CHR ''-'') (strip_edge_hyphens t) = filter (\<lambda>c. c \<noteq> CHR ''-'') t"
proof -
  define s1 where "s1 = (case t of [] \<Rightarrow> [] | c # cs \<Rightarrow> if c = CHR ''-'' then cs else t)"
  have a: "filter (\<lambda>c. c \<noteq> CHR ''-'') s1 = filter (\<lambda>c. c \<noteq> CHR ''-'') t"
    by (auto simp: s1_def split: list.splits)
  have b: "s1 \<noteq> [] \<Longrightarrow> last s1 = CHR ''-'' \<Longrightarrow>
      filter (\<lambda>c. c \<noteq> CHR ''-'') (butlast s1) = filter (\<lambda>c. c \<noteq> CHR ''-'') s1"
    by (induction s1 rule: rev_induct) auto
  from a b show ?thesis
    unfolding strip_edge_hyphens_def s1_def [symmetric] Let_def by auto
qed

lemma derive_id_filter:
  "filter (\<lambda>c. c \<noteq> CHR ''-'') (derive_id f) = filter alnum_char (toLowerCase f)"
proof -
  have "filter (\<lambda>c. c \<noteq> CHR ''-'') (replace_disallowed s) = filter alnum_char s" for s
    by (induction s) (auto simp: replace_disallowed_def id_char_def alnum_char_def)
  then show ?thesis
    by (simp add: derive_id_def strip_filter collapse_filter)
qed

lemma collapse_set: "set (collapse_hyphens s) \<subseteq> set s"
proof (induction s rule: collapse_hyphens.induct)
  case (3 c d cs)
  then show ?case by (auto dest: set_dropWhileD)
qed simp_all

lemma derive_id_chars: "list_all id_char (derive_id f)"
proof -
  let ?t = "collapse_hyphens (replace_disallowed (toLowerCase f))"
  have "set (derive_id f) \<subseteq> set ?t"
    unfolding derive_id_def by (rule set_mono_sublist [OF strip_sublist])
  also have "set ?t \<subseteq> set (replace_disallowed (toLowerCase f))"
    by (rule collapse_set)
  finally show ?thesis
    using id_char_replace [of "toLowerCase f"] by (auto simp: list_all_iff)
qed

lemma collapse_no_double: "\<not> sublist ''--'' (collapse_hyphens s)"
proof (induction s rule: collapse_hyphens.induct)
  case (3 c d cs)
  let ?r = "dropWhile (\<lambda>x. x = CHR ''-'') cs"
  show ?case
  proof (cases "c = CHR ''-'' \<and> d = CHR ''-''")
    case True
    have "?r \<noteq> [] \<Longrightarrow> hd ?r \<noteq> CHR ''-''"
      using hd_dropWhile [of "\<lambda>x. x = CHR ''-''" cs] by simp
    then have "\<not> prefix ''-'' (collapse_hyphens ?r)"
      using hd_collapse [of ?r] collapse_Nil_iff [of ?r]
      by (cases "collapse_hyphens ?r") auto
    with True 3 show ?thesis by (simp add: sublist_Cons_right)
  next
    case False
    have "hd (collapse_hyphens (d # cs)) = d" by (simp only: hd_collapse list.sel)
    moreover have "collapse_hyphens (d # cs) \<noteq> []" by (simp only: collapse_Nil_iff) simp
    ultimately obtain r where r: "collapse_hyphens (d # cs) = d # r"
      by (cases "collapse_hyphens (d # cs)") auto
    with False 3 show ?thesis by (auto simp: sublist_Cons_right)
  qed
qed (simp_all add: sublist_Cons_right)

lemma derive_id_no_double: "\<not> sublist ''--'' (derive_id f)"
  using collapse_no_double strip_sublist sublist_order.order.trans
  unfolding derive_id_def by blast

lemma derive_id_edges: "\<not> prefix ''-'' (derive_id f) \<and> \<not> suffix ''-'' (derive_id f)"
  unfolding derive_id_def by (rule strip_edges) (rule collapse_no_double)

lemma id_char_lower: "id_char c \<Longrightarrow> lower_char c = c"
  by (auto simp: id_char_def alnum_char_def lower_char_def Let_def)

lemma derive_id_Nil_iff: "derive_id f = [] \<longleftrightarrow> \<not> list_ex alnum_char (toLowerCase f)"
proof
  assume "derive_id f = []"
  then have "filter alnum_char (toLowerCase f) = []"
    using derive_id_filter [of f] by simp
  then show "\<not> list_ex alnum_char (toLowerCase f)"
    by (auto simp: list_ex_iff filter_empty_conv)
next
  assume "\<not> list_ex alnum_char (toLowerCase f)"
  then have "filter (\<lambda>c. c \<noteq> CHR ''-'') (derive_id f) = []"
    by (auto simp: derive_id_filter list_ex_iff filter_empty_conv)
  then have all: "\<forall>c \<in> set (derive_id f). c = CHR ''-''"
    by (auto simp: filter_empty_conv)
  show "derive_id f = []"
  proof (cases "derive_id f")
    case (Cons c cs)
    with all have "prefix ''-'' (derive_id f)" by simp
    with derive_id_edges show ?thesis by blast
  qed simp
qed

text \<open>
  Claim C10.  For every folder name, the identifier the uploader derives consists of
  characters of \<open>[a-z0-9-]\<close> only and is its own lower-case form (no uppercase letter), has
  no two hyphens in a row, and neither starts nor ends with a hyphen.  It matches the
  grammar \<open>^[a-z0-9-]+$\<close> exactly when the lower-cased folder name has a character of
  \<open>[a-z0-9]\<close>; when it has none, the identifier is the empty string and the key of an
  uploaded file is \<open>/<filename>\<close>.
\<close>

theorem derive_id_shape:
  "list_all id_char (derive_id folderName)
   \<and> toLowerCase (derive_id folderName) = derive_id folderName
   \<and> \<not> sublist ''--'' (derive_id folderName)
   \<and> \<not> prefix ''-'' (derive_id folderName)
   \<and> \<not> suffix ''-'' (derive_id folderName)
   \<and> (matches_id_grammar (derive_id folderName) \<longleftrightarrow> list_ex alnum_char (toLowerCase folderName))
   \<and> (if list_ex alnum_char (toLowerCase folderName) then derive_id folderName \<noteq> []
       else derive_id folderName = [] \<and> r2Key (derive_id folderName) filename = ''/'' @ filename)"
proof -
  have chars: "list_all id_char (derive_id folderName)" by (rule derive_id_chars)
  then have low: "toLowerCase (derive_id folderName) = derive_id folderName"
    by (auto simp: toLowerCase_def list_all_iff id_char_lower intro: map_idI)
  have nil: "derive_id folderName = [] \<longleftrightarrow> \<not> list_ex alnum_char (toLowerCase folderName)"
    by (rule derive_id_Nil_iff)
  have gram: "matches_id_grammar (derive_id folderName) \<longleftrightarrow> list_ex alnum_char (toLowerCase folderName)"
    using chars nil by (simp add: matches_id_grammar_def)
  have last: "if list_ex alnum_char (toLowerCase folderName) then derive_id folderName \<noteq> []
       else derive_id folderName = [] \<and> r2Key (derive_id folderName) filename = ''/'' @ filename"
    using nil by (simp add: r2Key_def)
  from chars low derive_id_no_double derive_id_edges gram last show ?thesis by blast
qed

theorem derive_id_shape_witness:
  "derive_id ''My Album__2024!'' = ''my-album-2024''
   \<and> matches_id_grammar (derive_id ''My Album__2024!'')
   \<and> derive_id ''_!_'' = [] \<and> \<not> matches_id_grammar (derive_id ''_!_'')
   \<and> r2Key (derive_id ''_!_'') ''a.jpg'' = ''/a.jpg''"
proof -
  have a: "list_ex alnum_char (toLowerCase ''My Album__2024!'')" by code_simp
  have b: "\<not> list_ex alnum_char (toLowerCase ''_!_'')" by code_simp
  have c: "derive_id ''My Album__2024!'' = ''my-album-2024''" by code_simp
  have d: "derive_id ''_!_'' = [] \<and> r2Key (derive_id ''_!_'') ''a.jpg'' = ''/'' @ ''a.jpg''"
    using b derive_id_shape [of "''_!_''" "''a.jpg''"] by metis
  have e: "matches_id_grammar (derive_id ''My Album__2024!'')"
    using a derive_id_shape [of "''My Album__2024!''" "''a.jpg''"] by blast
  have f: "\<not> matches_id_grammar (derive_id ''_!_'')"
    using b derive_id_shape [of "''_!_''" "''a.jpg''"] by blast
  from c d e f show ?thesis by (simp add: r2Key_def)
qed

section \<open>Basic facts about the world\<close>

lemma emit_simps [simp]:
  "bucket (emit e w) = bucket w" "locked (emit e w) = locked w"
  "faults (emit e w) = faults w" "trace (emit e w) = trace w @ [e]"
  by (simp_all add: emit_def)

section \<open>Reading metadata\<close>

lemma getKvMetadata_catch_result:
  "getKvMetadata_catch e w =
     (Inr JNull, if is_not_found e then w
                 else emit (Warn (''Warning: Error fetching KV metadata: '' @ message_text e)) w)"
  by (simp add: getKvMetadata_catch_def)

text \<open>
  Claim C6.  \<open>getKvMetadata\<close> never aborts: whatever the environment, it returns a value.
  When the read (or the parsing of its body) fails with a not-found error (status 404, or
  the provider's code 10009 in the message) the result is null and nothing but the read
  itself is added to the trace, so no warning; on every other error the result is null as
  well and one warning is logged.
\<close>

theorem getKvMetadata_degrades:
  "(\<exists>content. fst (getKvMetadata env albumId w) = Inr content)
   \<and> (kv_configured env \<longrightarrow>
        (kv_values_get env (kvKey albumId) = GetRejects e
         \<or> kv_values_get env (kvKey albumId) = GetResponse (Inl e)) \<longrightarrow>
        getKvMetadata env albumId w =
          (Inr JNull,
           if is_not_found e then emit (KvGet (kvKey albumId)) w
           else emit (Warn (''Warning: Error fetching KV metadata: '' @ message_text e))
                  (emit (KvGet (kvKey albumId)) w)))"
proof (intro conjI impI)
  show "\<exists>content. fst (getKvMetadata env albumId w) = Inr content"
    by (simp add: getKvMetadata_def kv_get_def getKvMetadata_catch_result
        split: kv_get_outcome.splits sum.splits)
next
  assume "kv_configured env"
    and "kv_values_get env (kvKey albumId) = GetRejects e
         \<or> kv_values_get env (kvKey albumId) = GetResponse (Inl e)"
  then show "getKvMetadata env albumId w =
          (Inr JNull,
           if is_not_found e then emit (KvGet (kvKey albumId)) w
           else emit (Warn (''Warning: Error fetching KV metadata: '' @ message_text e))
                  (emit (KvGet (kvKey albumId)) w))"
    by (auto simp: getKvMetadata_def kv_get_def getKvMetadata_catch_result)
qed

theorem getKvMetadata_degrades_witness:
  "kv_configured example_env
   \<and> kv_values_get example_env (kvKey ''trip'')
       = GetRejects (JsError (Some 500) (Some ''Internal Server Error''))
   \<and> \<not> is_not_found (JsError (Some 500) (Some ''Internal Server Error''))
   \<and> is_not_found (JsError None (Some ''get: 10009: key not found''))
   \<and> getKvMetadata example_env ''trip'' empty_world =
       (Inr JNull,
        emit (Warn ''Warning: Error fetching KV metadata: Internal Server Error'')
          (emit (KvGet ''album:trip'') empty_world))
   \<and> getKvMetadata
        (example_env\<lparr>kv_values_get :=
           (\<lambda>key. GetResponse (Inl (JsError None (Some ''get: 10009: key not found''))))\<rparr>)
        ''trip'' empty_world =
       (Inr JNull, emit (KvGet ''album:trip'') empty_world)"
proof -
  let ?e = "JsError (Some 500) (Some ''Internal Server Error'')"
  let ?n = "JsError None (Some ''get: 10009: key not found'')"
  let ?env = "example_env\<lparr>kv_values_get := (\<lambda>key. GetResponse (Inl ?n))\<rparr>"
  have c: "kv_configured example_env" "kv_configured ?env"
    by (simp_all add: kv_configured_def example_env_def)
  have g: "kv_values_get example_env (kvKey ''trip'') = GetRejects ?e"
    by (simp add: example_env_def)
  have g': "kv_values_get ?env (kvKey ''trip'') = GetResponse (Inl ?n)"
    by simp
  have n: "\<not> is_not_found ?e"
    by (simp add: is_not_found_def str_includes_def sublist_code)
  have n': "is_not_found ?n"
    by (simp add: is_not_found_def str_includes_def sublist_code)
  have k: "kvKey ''trip'' = ''album:trip''"
    by (simp add: kvKey_def)
  have m: "message_text ?e = ''Internal Server Error''"
    by (simp add: message_text_def)
  from getKvMetadata_degrades [of example_env "''trip''" empty_world ?e] c(1) g n k m
  have 1: "getKvMetadata example_env ''trip'' empty_world =
       (Inr JNull,
        emit (Warn ''Warning: Error fetching KV metadata: Internal Server Error'')
          (emit (KvGet ''album:trip'') empty_world))"
    by simp
  from getKvMetadata_degrades [of ?env "''trip''" empty_world ?n] c(2) g' n' k
  have 2: "getKvMetadata ?env ''trip'' empty_world =
       (Inr JNull, emit (KvGet ''album:trip'') empty_world)"
    by simp
  from c(1) g n n' 1 2 show ?thesis by blast
qed

section \<open>Inspecting an image\<close>

lemma inspect_undecodable:
  "\<not> decodable env fileBuffer \<Longrightarrow>
   \<exists>dimError. inspect en env filename fileBuffer w =
     (Inr (fallback_dimensions en filename),
      emit (Warn (dimension_warning en filename dimError)) w)"
  by (auto simp: inspect_def decodable_def Let_def split: sum.splits option.splits)

lemma inspect_decodable:
  "decodable env fileBuffer \<Longrightarrow>
   \<exists>x y. sizeOf env fileBuffer = Inr \<lparr>width = Some x, height = Some y\<rparr> \<and>
     inspect en env filename fileBuffer w = (Inr (x, y), w)"
  by (auto simp: inspect_def decodable_def Let_def split: sum.splits option.splits)

lemma inspect_returns: "\<exists>dims. fst (inspect en env filename fileBuffer w) = Inr dims"
  by (simp add: inspect_def Let_def split: sum.splits option.splits)

text \<open>
  Claim C4 as stated fails: in the bulk uploader a file whose name contains
  \<open>portrait\<close> and whose dimensions cannot be determined gets 800 by 1200.
\<close>

theorem inspect_fallback_counterexample:
  "\<not> decodable example_env ''albums/trip/portrait-b.png''
   \<and> fst (inspect Uploader example_env ''portrait-b.png'' ''albums/trip/portrait-b.png''
            empty_world) = Inr (800, 1200)"
  by (simp add: decodable_def example_env_def inspect_def toLowerCase_def lower_char_def
      str_includes_def sublist_code)

text \<open>
  Claim C4, amended.  For every buffer \<open>inspect\<close> returns dimensions and never raises.
  When the dimensions cannot be determined it logs one warning and returns, in the album
  CLI, 1200 by 800 whatever the file is called; in the bulk uploader, 800 by 1200 when the
  lower-cased file name contains \<open>portrait\<close>, else 1000 by 1000 when it contains
  \<open>square\<close>, else 1200 by 800.
\<close>

theorem inspect_fallback:
  "(\<exists>dims. fst (inspect en env filename fileBuffer w) = Inr dims)
   \<and> (\<not> decodable env fileBuffer \<longrightarrow>
        (\<exists>warning. inspect en env filename fileBuffer w =
           (Inr (case en of
                   AlbumCli \<Rightarrow> (1200, 800)
                 | Uploader \<Rightarrow>
                     if str_includes (toLowerCase filename) ''portrait'' then (800, 1200)
                     else if str_includes (toLowerCase filename) ''square'' then (1000, 1000)
                     else (1200, 800)),
            emit (Warn warning) w)))"
proof (intro conjI impI)
  show "\<exists>dims. fst (inspect en env filename fileBuffer w) = Inr dims"
    by (rule inspect_returns)
next
  assume "\<not> decodable env fileBuffer"
  from inspect_undecodable [OF this, of en filename w]
  show "\<exists>warning. inspect en env filename fileBuffer w =
           (Inr (case en of
                   AlbumCli \<Rightarrow> (1200, 800)
                 | Uploader \<Rightarrow>
                     if str_includes (toLowerCase filename) ''portrait'' then (800, 1200)
                     else if str_includes (toLowerCase filename) ''square'' then (1000, 1000)
                     else (1200, 800)),
            emit (Warn warning) w)"
    by (cases en) auto
qed

theorem inspect_fallback_witness:
  "\<not> decodable example_env ''albums/trip/portrait-b.png''
   \<and> (\<exists>warning. inspect AlbumCli example_env ''portrait-b.png'' ''albums/trip/portrait-b.png''
          empty_world = (Inr (1200, 800), emit (Warn warning) empty_world))"
proof -
  have d: "\<not> decodable example_env ''albums/trip/portrait-b.png''"
    by (simp add: decodable_def example_env_def)
  from d inspect_fallback [of AlbumCli example_env "''portrait-b.png''"
      "''albums/trip/portrait-b.png''" empty_world]
  show ?thesis by simp
qed

section \<open>Traces and the object store\<close>

lemma adds_refl [simp]: "adds P w w"
  by (simp add: adds_def new_events_def)

lemma adds_same_trace: "trace w' = trace w1 \<Longrightarrow> adds P w w' = adds P w w1"
  by (simp add: adds_def new_events_def)

lemma adds_emit: "adds P w w1 \<Longrightarrow> P e \<Longrightarrow> adds P w (emit e w1)"
  by (auto simp: adds_def new_events_def prefix_def)

lemma adds_trans: "adds P w w1 \<Longrightarrow> adds P w1 w2 \<Longrightarrow> adds P w w2"
  by (auto simp: adds_def new_events_def prefix_def)

lemma adds_mono: "adds P w w' \<Longrightarrow> (\<And>e. P e \<Longrightarrow> Q e) \<Longrightarrow> adds Q w w'"
  by (auto simp: adds_def list_all_iff)

lemma new_events_trans:
  "prefix (trace w) (trace w1) \<Longrightarrow> prefix (trace w1) (trace w2) \<Longrightarrow>
   new_events w w2 = new_events w w1 @ new_events w1 w2"
  by (auto simp: new_events_def prefix_def)

lemma new_events_emit:
  "prefix (trace w) (trace w1) \<Longrightarrow> new_events w (emit e w1) = new_events w w1 @ [e]"
  by (auto simp: new_events_def prefix_def)

lemma next_fault_eq:
  "next_fault w = (case faults w of [] \<Rightarrow> NoFault | f # fs \<Rightarrow> f, w\<lparr>faults := tl (faults w)\<rparr>)"
  by (simp add: next_fault_def split: list.splits)

lemma s3_list_eq:
  "s3_list pfx w =
     (case head_fault w of
        Rejects e \<Rightarrow> Inl e
      | NoFault \<Rightarrow> Inr \<lparr>Contents = take max_keys (filter (prefix pfx) (map fst (bucket w))),
                         IsTruncated = (max_keys < length (filter (prefix pfx) (map fst (bucket w))))\<rparr>,
      w\<lparr>faults := tl (faults w), trace := trace w @ [S3List pfx]\<rparr>)"
  by (simp add: s3_list_def next_fault_eq head_fault_def emit_def Let_def split: list.splits fault.splits)

lemma listR2Images_eq:
  "listR2Images albumId w =
     (case head_fault w of
        Rejects e \<Rightarrow>
          (Inr [], w\<lparr>faults := tl (faults w),
                     trace := trace w @ [S3List (albumId @ ''/''),
                        Warn (''Warning: Could not list existing R2 images: '' @ message_text e)]\<rparr>)
      | NoFault \<Rightarrow>
          (Inr (filter isImageName
                  (take max_keys (filter (prefix (albumId @ ''/'')) (map fst (bucket w))))),
           w\<lparr>faults := tl (faults w), trace := trace w @ [S3List (albumId @ ''/'')]\<rparr>))"
  by (simp add: listR2Images_def s3_list_eq emit_def split: fault.splits)

lemma listR2Images_result:
  "\<exists>keys. fst (listR2Images albumId w) = Inr keys \<and> list_all isImageName keys
      \<and> list_all (prefix (albumId @ ''/'')) keys \<and> length keys \<le> max_keys"
  by (auto simp: listR2Images_eq list_all_iff dest: in_set_takeD
      intro: le_trans [OF length_filter_le] split: fault.splits)

lemma listR2Images_frame:
  "bucket (snd (listR2Images albumId w)) = bucket w"
  "locked (snd (listR2Images albumId w)) = locked w"
  by (simp_all add: listR2Images_eq split: fault.splits)

lemma listR2Images_adds: "adds list_event w (snd (listR2Images albumId w))"
  by (simp add: listR2Images_eq adds_def new_events_def split: fault.splits)

lemma listR2Images_s3_calls:
  "filter is_s3_call (new_events w (snd (listR2Images albumId w))) = [S3List (albumId @ ''/'')]"
  by (simp add: listR2Images_eq new_events_def split: fault.splits)

lemma s3_delete_eq:
  "s3_delete keys w =
     (case head_fault w of
        Rejects e \<Rightarrow> (Inl e, w\<lparr>faults := tl (faults w), trace := trace w @ [S3Delete keys]\<rparr>)
      | NoFault \<Rightarrow>
          (Inr \<lparr>Deleted = filter (\<lambda>k. k \<notin> set (locked w)) keys,
                Errors = map (\<lambda>k. (k, ''AccessDenied'')) (filter (\<lambda>k. k \<in> set (locked w)) keys)\<rparr>,
           w\<lparr>bucket := filter (\<lambda>kv. fst kv \<notin> set keys \<or> fst kv \<in> set (locked w)) (bucket w),
             faults := tl (faults w), trace := trace w @ [S3Delete keys]\<rparr>))"
  by (auto simp: s3_delete_def next_fault_eq head_fault_def emit_def Let_def
      split: list.splits fault.splits intro!: filter_cong)

lemma foldl_emit:
  "foldl (\<lambda>w' x. emit (g x) w') w xs = w\<lparr>trace := trace w @ map g xs\<rparr>"
  by (induction xs arbitrary: w) (simp_all add: emit_def)

lemma report_errors_eq:
  "report_errors errs w =
     (if errs \<noteq> []
      then w\<lparr>trace := trace w @ Error ''Some deletions failed:''
                # map (\<lambda>km. Error (''  - '' @ fst km @ '': '' @ snd km)) errs\<rparr>
      else w)"
  by (simp add: report_errors_def foldl_emit)

lemma report_errors_frame [simp]:
  "bucket (report_errors errs w) = bucket w"
  "locked (report_errors errs w) = locked w"
  "faults (report_errors errs w) = faults w"
  by (simp_all add: report_errors_eq)

lemma report_errors_adds: "adds (batch_event keys) w (report_errors errs w)"
  by (simp add: report_errors_eq adds_def new_events_def list_all_iff)

lemma s3_delete_adds:
  "set batch \<subseteq> set keys \<Longrightarrow> length batch \<le> batchSize \<Longrightarrow>
   adds (batch_event keys) w (snd (s3_delete batch w))"
  by (simp add: s3_delete_eq adds_def new_events_def split: fault.splits)

lemma s3_delete_frame:
  "set batch \<subseteq> set keys \<Longrightarrow>
   filter (\<lambda>kv. fst kv \<notin> set keys) (bucket (snd (s3_delete batch w)))
     = filter (\<lambda>kv. fst kv \<notin> set keys) (bucket w)"
  "locked (snd (s3_delete batch w)) = locked w"
  by (auto simp: s3_delete_eq split: fault.splits intro!: filter_cong)

lemma delete_batches_adds:
  "adds (batch_event imageKeys) w (snd (delete_batches imageKeys i deletedCount w))"
proof (induction imageKeys i deletedCount w rule: delete_batches.induct)
  case (1 imageKeys i deletedCount w)
  let ?batch = "take batchSize (drop i imageKeys)"
  have sub: "set ?batch \<subseteq> set imageKeys"
    by (meson set_drop_subset set_take_subset subset_trans)
  have del: "adds (batch_event imageKeys) w (snd (s3_delete ?batch w))"
    by (rule s3_delete_adds [OF sub]) simp
  show ?case
  proof (cases "i < length imageKeys")
    case False
    then show ?thesis by (subst delete_batches.simps) simp
  next
    case True
    obtain x y where xy: "s3_delete ?batch w = (x, y)" by (cases "s3_delete ?batch w")
    show ?thesis
    proof (cases x)
      case (Inl e)
      with True xy del show ?thesis by (subst delete_batches.simps) simp
    next
      case (Inr b)
      from "1" [OF True xy [symmetric] Inr]
      have "adds (batch_event imageKeys) (report_errors (Errors b) y)
              (snd (delete_batches imageKeys (i + batchSize)
                 (deletedCount + int (length (Deleted b))) (report_errors (Errors b) y)))" .
      moreover have "adds (batch_event imageKeys) w (report_errors (Errors b) y)"
        using del xy report_errors_adds [of imageKeys y "Errors b"] by (auto intro: adds_trans)
      ultimately show ?thesis
        using True xy Inr by (subst delete_batches.simps) (auto intro: adds_trans)
    qed
  qed
qed

lemma delete_batches_frame:
  "filter (\<lambda>kv. fst kv \<notin> set imageKeys)
      (bucket (snd (delete_batches imageKeys i deletedCount w)))
     = filter (\<lambda>kv. fst kv \<notin> set imageKeys) (bucket w)"
proof (induction imageKeys i deletedCount w rule: delete_batches.induct)
  case (1 imageKeys i deletedCount w)
  let ?batch = "take batchSize (drop i imageKeys)"
  have sub: "set ?batch \<subseteq> set imageKeys"
    by (meson set_drop_subset set_take_subset subset_trans)
  note del = s3_delete_frame(1) [OF sub, of w]
  show ?case
  proof (cases "i < length imageKeys")
    case False
    then show ?thesis by (subst delete_batches.simps) simp
  next
    case True
    obtain x y where xy: "s3_delete ?batch w = (x, y)" by (cases "s3_delete ?batch w")
    show ?thesis
    proof (cases x)
      case (Inl e)
      with True xy del show ?thesis by (subst delete_batches.simps) simp
    next
      case (Inr b)
      from "1" [OF True xy [symmetric] Inr] del xy True Inr
      show ?thesis by (subst delete_batches.simps) simp
    qed
  qed
qed

section \<open>Deleting an album\<close>

lemma deleteR2Images_returns: "\<exists>ok. fst (deleteR2Images albumId w) = Inr ok"
  by (auto simp: deleteR2Images_def split: prod.splits sum.splits)

lemma batch_event_delete_event:
  assumes "list_all isImageName keys" and "list_all (prefix (albumId @ ''/'')) keys"
    and "batch_event keys e"
  shows "delete_event albumId e"
  using assms by (cases e) (auto simp: list_all_iff)

lemma list_event_delete_event: "list_event e \<Longrightarrow> delete_event albumId e"
  by (cases e) auto

lemma deleteR2Images_adds: "adds (delete_event albumId) w (snd (deleteR2Images albumId w))"
proof -
  obtain r w1 where l: "listR2Images albumId w = (r, w1)" by (cases "listR2Images albumId w")
  from listR2Images_result [of albumId w] l obtain keys where
    r: "r = Inr keys" and img: "list_all isImageName keys"
    and pre: "list_all (prefix (albumId @ ''/'')) keys" by auto
  have a1: "adds (delete_event albumId) w w1"
    using listR2Images_adds [of w albumId] l
    by (auto intro: adds_mono list_event_delete_event)
  have a2: "adds (delete_event albumId) w1 (snd (delete_batches keys 0 0 w1))"
    using delete_batches_adds [of keys w1 0 0] batch_event_delete_event [OF img pre]
    by (auto intro: adds_mono)
  show ?thesis
  proof (cases "length keys = 0")
    case True
    with a1 l r show ?thesis
      by (simp add: deleteR2Images_def adds_emit)
  next
    case False
    obtain x w2 where d: "delete_batches keys 0 0 w1 = (x, w2)"
      by (cases "delete_batches keys 0 0 w1")
    with a1 a2 have "adds (delete_event albumId) w w2"
      by (auto intro: adds_trans)
    with False l r d show ?thesis
      by (cases x) (simp_all add: deleteR2Images_def adds_emit)
  qed
qed

lemma filter_filter_weaker:
  "(\<And>x. P x \<Longrightarrow> Q x) \<Longrightarrow> filter P (filter Q xs) = filter P xs"
  by (induction xs) auto

lemma deleteR2Images_frame:
  "filter (\<lambda>kv. \<not> (isImageName (fst kv) \<and> prefix (albumId @ ''/'') (fst kv)))
      (bucket (snd (deleteR2Images albumId w)))
   = filter (\<lambda>kv. \<not> (isImageName (fst kv) \<and> prefix (albumId @ ''/'') (fst kv))) (bucket w)"
proof -
  let ?K = "\<lambda>kv::string \<times> s3object. \<not> (isImageName (fst kv) \<and> prefix (albumId @ ''/'') (fst kv))"
  obtain r w1 where l: "listR2Images albumId w = (r, w1)" by (cases "listR2Images albumId w")
  from listR2Images_result [of albumId w] l obtain keys where
    r: "r = Inr keys" and img: "list_all isImageName keys"
    and pre: "list_all (prefix (albumId @ ''/'')) keys" by auto
  have b1: "bucket w1 = bucket w" using listR2Images_frame(1) [of albumId w] l by simp
  have weak: "\<And>kv. ?K kv \<Longrightarrow> fst kv \<notin> set keys"
    using img pre by (auto simp: list_all_iff)
  let ?w2 = "snd (delete_batches keys 0 0 w1)"
  have "filter ?K (bucket ?w2) = filter ?K (filter (\<lambda>kv. fst kv \<notin> set keys) (bucket ?w2))"
    by (rule filter_filter_weaker [symmetric]) (rule weak)
  also have "\<dots> = filter ?K (filter (\<lambda>kv. fst kv \<notin> set keys) (bucket w1))"
    by (simp only: delete_batches_frame)
  also have "\<dots> = filter ?K (bucket w1)"
    by (rule filter_filter_weaker) (rule weak)
  finally have b2: "filter ?K (bucket ?w2) = filter ?K (bucket w)" using b1 by simp
  show ?thesis
    using l r b1 b2 by (auto simp: deleteR2Images_def split: prod.splits sum.splits)
qed

lemma getKvMetadata_returns: "\<exists>content. fst (getKvMetadata env albumId w) = Inr content"
  by (simp add: getKvMetadata_def kv_get_def getKvMetadata_catch_result
      split: kv_get_outcome.splits sum.splits)

lemma getKvMetadata_adds: "adds kv_read_event w (snd (getKvMetadata env albumId w))"
  by (simp add: getKvMetadata_def kv_get_def getKvMetadata_catch_result adds_def new_events_def
      split: kv_get_outcome.splits sum.splits)

lemma getKvMetadata_frame: "bucket (snd (getKvMetadata env albumId w)) = bucket w"
  by (simp add: getKvMetadata_def kv_get_def getKvMetadata_catch_result
      split: kv_get_outcome.splits sum.splits)

lemma kv_delete_eq:
  "kv_delete key w =
     (case head_fault w of Rejects e \<Rightarrow> Inl e | NoFault \<Rightarrow> Inr (),
      w\<lparr>faults := tl (faults w), trace := trace w @ [KvDelete key]\<rparr>)"
  by (simp add: kv_delete_def next_fault_eq head_fault_def emit_def split: list.splits fault.splits)

lemma kv_update_eq:
  "kv_update key doc w =
     (case head_fault w of Rejects e \<Rightarrow> Inl e | NoFault \<Rightarrow> Inr (),
      w\<lparr>faults := tl (faults w), trace := trace w @ [KvUpdate key doc]\<rparr>)"
  by (simp add: kv_update_def next_fault_eq head_fault_def emit_def split: list.splits fault.splits)

lemma deleteKvMetadata_returns: "\<exists>ok. fst (deleteKvMetadata env albumId w) = Inr ok"
  by (auto simp: deleteKvMetadata_def split: prod.splits sum.splits)

lemma deleteKvMetadata_adds: "adds kv_delete_event w (snd (deleteKvMetadata env albumId w))"
  by (simp add: deleteKvMetadata_def kv_delete_eq adds_def new_events_def split: fault.splits)

lemma deleteKvMetadata_frame: "bucket (snd (deleteKvMetadata env albumId w)) = bucket w"
  by (simp add: deleteKvMetadata_def kv_delete_eq split: fault.splits)

lemma adds_new_events:
  "adds P w w1 \<Longrightarrow> adds Q w1 w2 \<Longrightarrow>
   new_events w w2 = new_events w w1 @ new_events w1 w2
   \<and> list_all P (new_events w w1) \<and> list_all Q (new_events w1 w2)
   \<and> prefix (trace w) (trace w2)"
  by (auto simp: adds_def new_events_def prefix_def)

lemma adds_emit_new_events:
  "adds P w w1 \<Longrightarrow> new_events w (emit e w1) = new_events w w1 @ [e]"
  by (auto simp: adds_def new_events_def prefix_def)

lemma deleteAlbum_reads:
  "\<exists>existingMetadata existingImages w1 w2.
     getKvMetadata env albumId w = (Inr existingMetadata, w1)
     \<and> listR2Images albumId w1 = (Inr existingImages, w2)
     \<and> adds read_event w w2 \<and> bucket w2 = bucket w"
proof -
  let ?w1 = "snd (getKvMetadata env albumId w)"
  obtain m where m: "getKvMetadata env albumId w = (Inr m, ?w1)"
    using getKvMetadata_returns [of env albumId w] by (cases "getKvMetadata env albumId w") auto
  obtain imgs where i: "listR2Images albumId ?w1 = (Inr imgs, snd (listR2Images albumId ?w1))"
    using listR2Images_result [of albumId ?w1] by (cases "listR2Images albumId ?w1") auto
  have "adds read_event w ?w1"
    by (rule adds_mono [OF getKvMetadata_adds]) (simp add: read_event_def)
  moreover have "adds read_event ?w1 (snd (listR2Images albumId ?w1))"
    by (rule adds_mono [OF listR2Images_adds]) (simp add: read_event_def)
  ultimately have "adds read_event w (snd (listR2Images albumId ?w1))"
    by (rule adds_trans)
  moreover have "bucket (snd (listR2Images albumId ?w1)) = bucket w"
    by (simp add: listR2Images_frame getKvMetadata_frame)
  ultimately show ?thesis using m i by blast
qed

lemma deleteAlbum_eq_not_found:
  assumes "getKvMetadata env albumId w = (Inr m, w1)"
    and "listR2Images albumId w1 = (Inr imgs, w2)"
    and "\<not> truthy m" and "imgs = []"
  shows "deleteAlbum env confirmDelete albumId w
    = (Inr (), emit (Info ''Album not found (no metadata or images exist).'') w2)"
  using assms by (simp add: deleteAlbum_def)

lemma deleteAlbum_eq_refused:
  assumes "getKvMetadata env albumId w = (Inr m, w1)"
    and "listR2Images albumId w1 = (Inr imgs, w2)"
    and "truthy m \<or> imgs \<noteq> []"
  shows "deleteAlbum env False albumId w
    = (Inr (), emit (Info ''Deletion cancelled.'') (emit (Prompt ''confirmDelete'' False) w2))"
  using assms by (auto simp: deleteAlbum_def)

lemma deleteAlbum_eq_confirmed:
  assumes "getKvMetadata env albumId w = (Inr m, w1)"
    and "listR2Images albumId w1 = (Inr imgs, w2)"
    and "truthy m \<or> imgs \<noteq> []"
    and "(if imgs \<noteq> [] then deleteR2Images albumId (emit (Prompt ''confirmDelete'' True) w2)
          else (Inr True, emit (Prompt ''confirmDelete'' True) w2)) = (Inr ok, w4)"
    and "(if truthy m then deleteKvMetadata env albumId w4 else (Inr True, w4)) = (Inr ok', w5)"
  shows "deleteAlbum env True albumId w
    = (Inr (), emit (Info (''Album '' @ albumId @ '' has been completely deleted.'')) w5)"
  using assms by (auto simp: deleteAlbum_def)

lemma deleteAlbum_shape:
  fixes env confirmDelete albumId w
  defines "w' \<equiv> snd (deleteAlbum env confirmDelete albumId w)"
  shows "(\<exists>A m. new_events w w' = A @ [Info m] \<and> list_all read_event A)
       \<or> (\<exists>A m. \<not> confirmDelete
             \<and> new_events w w' = A @ [Prompt ''confirmDelete'' False, Info m]
             \<and> list_all read_event A)
       \<or> (\<exists>A B C m. confirmDelete
             \<and> new_events w w' = A @ Prompt ''confirmDelete'' True # B @ C @ [Info m]
             \<and> list_all read_event A \<and> list_all (delete_event albumId) B
             \<and> list_all kv_delete_event C)"
proof -
  from deleteAlbum_reads [of env albumId w] obtain m imgs w1 w2 where
    g: "getKvMetadata env albumId w = (Inr m, w1)"
    and l: "listR2Images albumId w1 = (Inr imgs, w2)"
    and a: "adds read_event w w2" by blast
  have A: "list_all read_event (new_events w w2)" using a by (simp add: adds_def)
  have aT: "adds (\<lambda>e. True) w w2" by (rule adds_mono [OF a]) simp
  show ?thesis
  proof (cases "\<not> truthy m \<and> imgs = []")
    case True
    let ?info = "''Album not found (no metadata or images exist).''"
    have "w' = emit (Info ?info) w2"
      unfolding w'_def using deleteAlbum_eq_not_found [OF g l, of confirmDelete] True by simp
    then have "new_events w w' = new_events w w2 @ [Info ?info]"
      using adds_emit_new_events [OF a] by simp
    with A have "\<exists>A m. new_events w w' = A @ [Info m] \<and> list_all read_event A"
      by (intro exI conjI)
    then show ?thesis by (intro disjI1)
  next
    case False
    then have some: "truthy m \<or> imgs \<noteq> []" by simp
    show ?thesis
    proof (cases confirmDelete)
      case no: False
      let ?w3 = "emit (Prompt ''confirmDelete'' False) w2"
      have a3: "adds (\<lambda>e. True) w ?w3" by (rule adds_emit [OF aT]) simp
      have "w' = emit (Info ''Deletion cancelled.'') ?w3"
        unfolding w'_def using deleteAlbum_eq_refused [OF g l some] no by simp
      then have "new_events w w' = new_events w ?w3 @ [Info ''Deletion cancelled.'']"
        using adds_emit_new_events [OF a3] by simp
      also have "new_events w ?w3 = new_events w w2 @ [Prompt ''confirmDelete'' False]"
        by (rule adds_emit_new_events [OF a])
      finally have "new_events w w'
          = new_events w w2 @ [Prompt ''confirmDelete'' False, Info ''Deletion cancelled.'']"
        by simp
      with A no have "\<exists>A m. \<not> confirmDelete
             \<and> new_events w w' = A @ [Prompt ''confirmDelete'' False, Info m]
             \<and> list_all read_event A"
        by (intro exI conjI)
      then show ?thesis by (intro disjI2 disjI1)
    next
      case yes: True
      let ?w3 = "emit (Prompt ''confirmDelete'' True) w2"
      have a3: "adds (\<lambda>e. True) w ?w3" by (rule adds_emit [OF aT]) simp
      have n3: "new_events w ?w3 = new_events w w2 @ [Prompt ''confirmDelete'' True]"
        by (rule adds_emit_new_events [OF a])
      let ?r4 = "if imgs \<noteq> [] then deleteR2Images albumId ?w3 else (Inr True, ?w3)"
      have "\<exists>ok. fst ?r4 = Inr ok"
        by (auto simp: deleteR2Images_returns)
      then obtain ok w4 where r4: "?r4 = (Inr ok, w4)"
        by (cases ?r4) auto
      have "adds (delete_event albumId) ?w3 (snd ?r4)"
        using deleteR2Images_adds [of albumId ?w3] by simp
      then have a4: "adds (delete_event albumId) ?w3 w4" by (simp only: r4 snd_conv)
      let ?r5 = "if truthy m then deleteKvMetadata env albumId w4 else (Inr True, w4)"
      have "\<exists>ok. fst ?r5 = Inr ok"
        by (auto simp: deleteKvMetadata_returns)
      then obtain ok' w5 where r5: "?r5 = (Inr ok', w5)"
        by (cases ?r5) auto
      have "adds kv_delete_event w4 (snd ?r5)"
        using deleteKvMetadata_adds [of w4 env albumId] by simp
      then have a5: "adds kv_delete_event w4 w5" by (simp only: r5 snd_conv)
      let ?info = "Info (''Album '' @ albumId @ '' has been completely deleted.'')"
      have w': "w' = emit ?info w5"
        unfolding w'_def using deleteAlbum_eq_confirmed [OF g l some r4 r5] yes by simp
      have a34: "adds (\<lambda>e. True) w w4"
        by (rule adds_trans [OF a3]) (rule adds_mono [OF a4], simp)
      have n4: "new_events w w4 = new_events w ?w3 @ new_events ?w3 w4"
        using adds_new_events [OF a3 a4] by (rule conjunct1)
      have n5: "new_events w w5 = new_events w w4 @ new_events w4 w5"
        using adds_new_events [OF a34 a5] by (rule conjunct1)
      have a35: "adds (\<lambda>e. True) w w5"
        by (rule adds_trans [OF a34]) (rule adds_mono [OF a5], simp)
      have "new_events w w' = new_events w w5 @ [?info]"
        unfolding w' by (rule adds_emit_new_events [OF a35])
      then have ne: "new_events w w' = new_events w w2 @ Prompt ''confirmDelete'' True
               # new_events ?w3 w4 @ new_events w4 w5 @ [?info]"
        by (simp only: n5 n4 n3 append_assoc append_Cons append_Nil)
      have B: "list_all (delete_event albumId) (new_events ?w3 w4)"
        using a4 by (simp add: adds_def)
      have C: "list_all kv_delete_event (new_events w4 w5)"
        using a5 by (simp add: adds_def)
      have "\<exists>A B C m. confirmDelete
             \<and> new_events w w' = A @ Prompt ''confirmDelete'' True # B @ C @ [Info m]
             \<and> list_all read_event A \<and> list_all (delete_event albumId) B
             \<and> list_all kv_delete_event C"
        using yes ne A B C by (intro exI conjI)
      then show ?thesis by (intro disjI2)
    qed
  qed
qed

lemma deleteAlbum_frame:
  "filter (\<lambda>kv. \<not> (isImageName (fst kv) \<and> prefix (albumId @ ''/'') (fst kv)))
      (bucket (snd (deleteAlbum env confirmDelete albumId w)))
   = filter (\<lambda>kv. \<not> (isImageName (fst kv) \<and> prefix (albumId @ ''/'') (fst kv))) (bucket w)"
proof -
  let ?K = "\<lambda>kv::string \<times> s3object. \<not> (isImageName (fst kv) \<and> prefix (albumId @ ''/'') (fst kv))"
  from deleteAlbum_reads [of env albumId w] obtain m imgs w1 w2 where
    g: "getKvMetadata env albumId w = (Inr m, w1)"
    and l: "listR2Images albumId w1 = (Inr imgs, w2)"
    and b2: "bucket w2 = bucket w" by blast
  show ?thesis
  proof (cases "\<not> truthy m \<and> imgs = []")
    case True
    then show ?thesis
      using deleteAlbum_eq_not_found [OF g l, of confirmDelete] b2 by simp
  next
    case False
    then have some: "truthy m \<or> imgs \<noteq> []" by simp
    show ?thesis
    proof (cases confirmDelete)
      case no: False
      then show ?thesis using deleteAlbum_eq_refused [OF g l some] b2 by simp
    next
      case yes: True
      let ?w3 = "emit (Prompt ''confirmDelete'' True) w2"
      let ?r4 = "if imgs \<noteq> [] then deleteR2Images albumId ?w3 else (Inr True, ?w3)"
      have "\<exists>ok. fst ?r4 = Inr ok"
        by (auto simp: deleteR2Images_returns)
      then obtain ok w4 where r4: "?r4 = (Inr ok, w4)"
        by (cases ?r4) auto
      have "filter ?K (bucket (snd ?r4)) = filter ?K (bucket ?w3)"
        using deleteR2Images_frame [of albumId ?w3] by simp
      then have b4: "filter ?K (bucket w4) = filter ?K (bucket w)"
        using b2 by (simp only: r4 snd_conv emit_simps)
      let ?r5 = "if truthy m then deleteKvMetadata env albumId w4 else (Inr True, w4)"
      have "\<exists>ok. fst ?r5 = Inr ok"
        by (auto simp: deleteKvMetadata_returns)
      then obtain ok' w5 where r5: "?r5 = (Inr ok', w5)"
        by (cases ?r5) auto
      have "bucket (snd ?r5) = bucket w4"
        by (simp add: deleteKvMetadata_frame)
      then have b5: "bucket w5 = bucket w4" by (simp only: r5 snd_conv)
      show ?thesis
        using deleteAlbum_eq_confirmed [OF g l some r4 r5] yes b4 b5 by simp
    qed
  qed
qed

lemma read_event_harmless:
  "read_event e \<Longrightarrow> \<not> is_destructive e \<and> \<not> is_kv_delete e \<and> \<not> is_s3_delete e
     \<and> e \<noteq> Prompt ''confirmDelete'' True"
  by (cases e) (auto simp: read_event_def is_destructive_def)

lemma delete_event_no_kv: "delete_event albumId e \<Longrightarrow> \<not> is_kv_delete e"
  by (cases e) auto

lemma kv_delete_event_no_s3: "kv_delete_event e \<Longrightarrow> \<not> is_s3_delete e"
  by (cases e) auto

lemma list_all_takeWhile: "list_all Q xs \<Longrightarrow> list_all Q (takeWhile P xs)"
  by (auto simp: list_all_iff dest: set_takeWhileD)

lemma list_all_dropWhile: "list_all Q xs \<Longrightarrow> list_all Q (dropWhile P xs)"
  by (auto simp: list_all_iff dest: set_dropWhileD)

lemma list_all_weaken: "list_all P xs \<Longrightarrow> (\<And>x. P x \<Longrightarrow> Q x) \<Longrightarrow> list_all Q xs"
  by (auto simp: list_all_iff)

text \<open>
  Claim C5.  Among the events one run of \<open>deleteAlbum\<close> adds to the trace, no delete call
  (neither DeleteObjects nor the deletion of the metadata document) comes before the
  confirmation prompt answered with yes; when the answer is no, there is no delete call at
  all; and no DeleteObjects call comes after the deletion of the metadata document.
\<close>

theorem deleteAlbum_confirmation_first:
  "(let events = new_events w (snd (deleteAlbum env confirmDelete albumId w))
    in list_all (\<lambda>e. \<not> is_destructive e)
         (takeWhile (\<lambda>e. e \<noteq> Prompt ''confirmDelete'' True) events)
       \<and> (\<not> confirmDelete \<longrightarrow> list_all (\<lambda>e. \<not> is_destructive e) events)
       \<and> list_all (\<lambda>e. \<not> is_s3_delete e) (dropWhile (\<lambda>e. \<not> is_kv_delete e) events))"
proof -
  let ?ev = "new_events w (snd (deleteAlbum env confirmDelete albumId w))"
  let ?P = "\<lambda>e. e \<noteq> Prompt ''confirmDelete'' True"
  let ?D = "\<lambda>e. \<not> is_destructive e"
  have goal: "list_all ?D (takeWhile ?P ?ev)
       \<and> (\<not> confirmDelete \<longrightarrow> list_all ?D ?ev)
       \<and> list_all (\<lambda>e. \<not> is_s3_delete e) (dropWhile (\<lambda>e. \<not> is_kv_delete e) ?ev)"
    using deleteAlbum_shape [of w env confirmDelete albumId]
  proof (elim disjE exE conjE)
    fix A m
    assume ev: "?ev = A @ [Info m]" and A: "list_all read_event A"
    have "list_all (\<lambda>e. \<not> is_destructive e \<and> \<not> is_s3_delete e) ?ev"
      unfolding ev using A
      by (auto simp: list_all_iff is_destructive_def dest: read_event_harmless)
    then have "list_all ?D ?ev" "list_all (\<lambda>e. \<not> is_s3_delete e) ?ev"
      by (auto simp: list_all_iff)
    then show ?thesis
      by (auto simp: list_all_takeWhile list_all_dropWhile)
  next
    fix A m
    assume no: "\<not> confirmDelete"
      and ev: "?ev = A @ [Prompt ''confirmDelete'' False, Info m]"
      and A: "list_all read_event A"
    have "list_all (\<lambda>e. \<not> is_destructive e \<and> \<not> is_s3_delete e) ?ev"
      unfolding ev using A
      by (auto simp: list_all_iff is_destructive_def dest: read_event_harmless)
    then have "list_all ?D ?ev" "list_all (\<lambda>e. \<not> is_s3_delete e) ?ev"
      by (auto simp: list_all_iff)
    then show ?thesis
      by (auto simp: list_all_takeWhile list_all_dropWhile)
  next
    fix A B C m
    assume yes: confirmDelete
      and ev: "?ev = A @ Prompt ''confirmDelete'' True # B @ C @ [Info m]"
      and A: "list_all read_event A" and B: "list_all (delete_event albumId) B"
      and C: "list_all kv_delete_event C"
    have tw: "takeWhile ?P ?ev = A"
      unfolding ev using A
      by (subst takeWhile_append2) (auto simp: list_all_iff dest: read_event_harmless)
    have 1: "list_all ?D (takeWhile ?P ?ev)"
      unfolding tw using A by (auto simp: list_all_iff dest: read_event_harmless)
    have "dropWhile (\<lambda>e. \<not> is_kv_delete e) ?ev
        = dropWhile (\<lambda>e. \<not> is_kv_delete e) (C @ [Info m])"
    proof -
      have split: "?ev = (A @ Prompt ''confirmDelete'' True # B) @ (C @ [Info m])"
        unfolding ev by simp
      have "\<And>x. x \<in> set (A @ Prompt ''confirmDelete'' True # B) \<Longrightarrow> \<not> is_kv_delete x"
        using A B by (auto simp: list_all_iff dest: read_event_harmless delete_event_no_kv)
      then show ?thesis
        unfolding split by (rule dropWhile_append2)
    qed
    moreover have "list_all (\<lambda>e. \<not> is_s3_delete e) (C @ [Info m])"
      using C by (auto simp: list_all_iff dest: kv_delete_event_no_s3)
    ultimately have 3: "list_all (\<lambda>e. \<not> is_s3_delete e) (dropWhile (\<lambda>e. \<not> is_kv_delete e) ?ev)"
      by (simp add: list_all_dropWhile)
    from 1 3 yes show ?thesis by simp
  qed
  then show ?thesis unfolding Let_def .
qed

theorem deleteAlbum_confirmation_first_witness:
  "new_events trip_world (snd (deleteAlbum trip_env False ''trip'' trip_world))
     = [KvGet ''album:trip'', S3List ''trip/'', Prompt ''confirmDelete'' False,
        Info ''Deletion cancelled.'']
   \<and> list_all (\<lambda>e. \<not> is_destructive e)
         (new_events trip_world (snd (deleteAlbum trip_env False ''trip'' trip_world)))
   \<and> new_events trip_world (snd (deleteAlbum trip_env True ''trip'' trip_world))
     = [KvGet ''album:trip'', S3List ''trip/'', Prompt ''confirmDelete'' True, S3List ''trip/'',
        S3Delete [''trip/a.jpg''], ReportDeleted 1, KvDelete ''album:trip'',
        Info ''Successfully deleted KV metadata for album:trip'',
        Info ''Album trip has been completely deleted.'']"
proof -
  have no: "new_events trip_world (snd (deleteAlbum trip_env False ''trip'' trip_world))
     = [KvGet ''album:trip'', S3List ''trip/'', Prompt ''confirmDelete'' False,
        Info ''Deletion cancelled.'']"
    by code_simp
  have yes: "new_events trip_world (snd (deleteAlbum trip_env True ''trip'' trip_world))
     = [KvGet ''album:trip'', S3List ''trip/'', Prompt ''confirmDelete'' True, S3List ''trip/'',
        S3Delete [''trip/a.jpg''], ReportDeleted 1, KvDelete ''album:trip'',
        Info ''Successfully deleted KV metadata for album:trip'',
        Info ''Album trip has been completely deleted.'']"
    by code_simp
  have "list_all (\<lambda>e. \<not> is_destructive e)
         (new_events trip_world (snd (deleteAlbum trip_env False ''trip'' trip_world)))"
    using deleteAlbum_confirmation_first [of trip_world trip_env False "''trip''"]
    unfolding Let_def by blast
  with no yes show ?thesis by blast
qed

text \<open>
  Claim C9.  Every batch \<open>deleteAlbum\<close> passes to DeleteObjects consists of keys under
  the album's prefix that end in a recognised image extension, and the entries of the
  bucket whose key does not end in one are the same after the run as before.
\<close>

theorem deleteAlbum_only_images:
  "(\<forall>batch. S3Delete batch \<in> set (new_events w (snd (deleteAlbum env confirmDelete albumId w)))
      \<longrightarrow> list_all isImageName batch \<and> list_all (prefix (albumId @ ''/'')) batch)
   \<and> filter (\<lambda>kv. \<not> isImageName (fst kv)) (bucket (snd (deleteAlbum env confirmDelete albumId w)))
     = filter (\<lambda>kv. \<not> isImageName (fst kv)) (bucket w)"
proof -
  let ?ev = "new_events w (snd (deleteAlbum env confirmDelete albumId w))"
  have kinds: "\<forall>e \<in> set ?ev. read_event e \<or> delete_event albumId e \<or> kv_delete_event e
      \<or> (\<exists>m. e = Info m) \<or> (\<exists>c. e = Prompt ''confirmDelete'' c)"
    using deleteAlbum_shape [of w env confirmDelete albumId]
    by (elim disjE exE conjE) (auto simp: list_all_iff)
  have batches: "\<forall>batch. S3Delete batch \<in> set ?ev
      \<longrightarrow> list_all isImageName batch \<and> list_all (prefix (albumId @ ''/'')) batch"
  proof (intro allI impI)
    fix batch
    assume "S3Delete batch \<in> set ?ev"
    with kinds have "delete_event albumId (S3Delete batch)"
      by (auto simp: read_event_def)
    then show "list_all isImageName batch \<and> list_all (prefix (albumId @ ''/'')) batch"
      by simp
  qed
  let ?K = "\<lambda>kv::string \<times> s3object. \<not> (isImageName (fst kv) \<and> prefix (albumId @ ''/'') (fst kv))"
  let ?N = "\<lambda>kv::string \<times> s3object. \<not> isImageName (fst kv)"
  let ?b' = "bucket (snd (deleteAlbum env confirmDelete albumId w))"
  have "filter ?N ?b' = filter ?N (filter ?K ?b')"
    by (rule filter_filter_weaker [symmetric]) simp
  also have "\<dots> = filter ?N (filter ?K (bucket w))"
    by (simp only: deleteAlbum_frame)
  also have "\<dots> = filter ?N (bucket w)"
    by (rule filter_filter_weaker) simp
  finally have "filter ?N ?b' = filter ?N (bucket w)" .
  with batches show ?thesis by (rule conjI)
qed

theorem deleteAlbum_only_images_witness:
  "S3Delete [''trip/a.jpg'']
     \<in> set (new_events trip_world (snd (deleteAlbum trip_env True ''trip'' trip_world)))
   \<and> list_all isImageName [''trip/a.jpg'']
   \<and> \<not> isImageName ''trip/notes.txt''
   \<and> bucket (snd (deleteAlbum trip_env True ''trip'' trip_world))
       = [(''trip/notes.txt'', example_object)]"
proof -
  have ev: "S3Delete [''trip/a.jpg'']
     \<in> set (new_events trip_world (snd (deleteAlbum trip_env True ''trip'' trip_world)))"
    by code_simp
  have n: "\<not> isImageName ''trip/notes.txt''"
    by code_simp
  have b: "bucket (snd (deleteAlbum trip_env True ''trip'' trip_world))
       = [(''trip/notes.txt'', example_object)]"
    by code_simp
  from ev deleteAlbum_only_images [of trip_world trip_env True "''trip''"]
  have "list_all isImageName [''trip/a.jpg'']" by blast
  with ev n b show ?thesis by blast
qed

section \<open>Albums with more images than one page of a listing\<close>

lemma photo_key_inj: "photo_key i = photo_key j \<longleftrightarrow> i = j"
proof
  assume "photo_key i = photo_key j"
  then have "length (photo_key i) = length (photo_key j)" by simp
  then show "i = j" by (simp add: photo_key_def)
qed simp

lemma photo_key_prefix: "prefix ''trip/'' (photo_key i)"
  by (simp add: photo_key_def)

lemma photo_key_image: "isImageName (photo_key i)"
proof -
  have "map ascii_fold (photo_key i) = map ascii_fold (''trip/'' @ replicate i CHR ''x'') @ ''.jpg''"
    by (simp add: photo_key_def ascii_fold_def)
  then have "suffix ''.jpg'' (map ascii_fold (photo_key i))"
    by (simp only: suffix_def) blast
  then show ?thesis
    by (simp add: isImageName_def image_extensions_def)
qed

lemma big_album_keys: "map fst (bucket (big_album n)) = map photo_key [0..<n]"
  by (simp add: big_album_def comp_def)

lemma big_album_listing:
  assumes "max_keys \<le> n"
  shows "listR2Images ''trip'' (big_album n)
     = (Inr (map photo_key [0..<max_keys]), (big_album n)\<lparr>trace := [S3List ''trip/'']\<rparr>)"
proof -
  have h: "head_fault (big_album n) = NoFault"
    by (simp add: head_fault_def big_album_def)
  have f: "filter (prefix ''trip/'') (map photo_key [0..<n]) = map photo_key [0..<n]"
    by (simp add: photo_key_prefix)
  have t: "take max_keys (map photo_key [0..<n]) = map photo_key [0..<max_keys]"
    using assms by (simp add: take_map)
  have i: "filter isImageName (map photo_key [0..<max_keys]) = map photo_key [0..<max_keys]"
    by (simp add: photo_key_image)
  have w: "(big_album n)\<lparr>faults := tl (faults (big_album n)),
              trace := trace (big_album n) @ [S3List ''trip/'']\<rparr>
         = (big_album n)\<lparr>trace := [S3List ''trip/'']\<rparr>"
    by (simp add: big_album_def)
  have "listR2Images ''trip'' (big_album n)
     = (Inr (map photo_key [0..<max_keys]),
        (big_album n)\<lparr>faults := tl (faults (big_album n)),
              trace := trace (big_album n) @ [S3List ''trip/'']\<rparr>)"
    unfolding listR2Images_eq h fault.case big_album_keys
    by (simp only: append.simps f t i)
  then show ?thesis by (simp only: w)
qed

lemma delete_batches_one:
  assumes "imageKeys \<noteq> []" and "length imageKeys \<le> batchSize"
    and "head_fault w = NoFault" and "locked w = []"
  shows "delete_batches imageKeys 0 deletedCount w
     = (Inr (deletedCount + int (length imageKeys)),
        w\<lparr>bucket := filter (\<lambda>kv. fst kv \<notin> set imageKeys) (bucket w),
          faults := tl (faults w), trace := trace w @ [S3Delete imageKeys]\<rparr>)"
proof -
  have stop: "\<And>c v. delete_batches imageKeys batchSize c v = (Inr c, v)"
    using assms(2) by (subst delete_batches.simps) simp
  show ?thesis
    using assms
    by (subst delete_batches.simps) (simp add: s3_delete_eq report_errors_eq stop)
qed

lemma big_album_remaining:
  assumes "m \<le> n"
  shows "filter (\<lambda>kv. fst kv \<notin> set (map photo_key [0..<m])) (bucket (big_album n))
     = map (\<lambda>i. (photo_key i, example_object)) [m..<n]"
proof -
  have "[0..<n] = [0..<m] @ [m..<n]"
    using assms by (metis le_add_diff_inverse upt_add_eq_append zero_le)
  moreover have "filter (\<lambda>i. photo_key i \<notin> photo_key ` {0..<m}) [0..<m] = []"
    by (simp add: filter_empty_conv)
  moreover have "filter (\<lambda>i. photo_key i \<notin> photo_key ` {0..<m}) [m..<n] = [m..<n]"
    by (auto simp: filter_id_conv photo_key_inj)
  ultimately show ?thesis
    by (simp add: big_album_def filter_map comp_def)
qed

lemma big_album_all_images:
  "list_all (\<lambda>k. prefix ''trip/'' k \<and> isImageName k) (map fst (bucket (big_album n)))"
  by (simp add: big_album_keys list_all_iff photo_key_prefix photo_key_image)

text \<open>
  Claim C1 (the listing is complete, also beyond one page of 1000 keys) does not hold of
  the code.  At an album of 1001 images, with no call rejected: every key of the bucket
  lies under the prefix and is an image key, \<open>listR2Images\<close> returns the first 1000 of
  them, and the last key of the album is not in the result.
\<close>

theorem listR2Images_truncates:
  "length (bucket (big_album 1001)) = 1001
   \<and> list_all (\<lambda>k. prefix ''trip/'' k \<and> isImageName k) (map fst (bucket (big_album 1001)))
   \<and> fst (listR2Images ''trip'' (big_album 1001)) = Inr (map photo_key [0..<1000])
   \<and> photo_key 1000 \<in> set (map fst (bucket (big_album 1001)))
   \<and> photo_key 1000 \<notin> set (map photo_key [0..<1000])"
proof -
  have 1: "length (bucket (big_album 1001)) = 1001"
    by (simp add: big_album_def)
  have 3: "fst (listR2Images ''trip'' (big_album 1001)) = Inr (map photo_key [0..<1000])"
    using big_album_listing [of 1001] by (simp add: max_keys_def)
  have 4: "photo_key 1000 \<in> set (map fst (bucket (big_album 1001)))"
    by (simp add: big_album_keys)
  have 5: "photo_key 1000 \<notin> set (map photo_key [0..<1000])"
    by (simp add: photo_key_inj image_iff)
  from 1 big_album_all_images [of 1001] 3 4 5 show ?thesis by blast
qed

text \<open>
  Claim C2 (an album of 1500 images is deleted in at least two batches and 1500 is
  reported) does not hold of the code.  At an album of 1500 images, with no key locked and
  no call rejected: \<open>deleteR2Images\<close> lists once, issues one DeleteObjects call with the
  first 1000 keys, reports 1000 deleted images and leaves 500 images in the bucket.
\<close>

theorem deleteR2Images_truncates:
  "length (bucket (big_album 1500)) = 1500
   \<and> list_all (\<lambda>k. prefix ''trip/'' k \<and> isImageName k) (map fst (bucket (big_album 1500)))
   \<and> deleteR2Images ''trip'' (big_album 1500)
     = (Inr True,
        \<lparr>bucket = map (\<lambda>i. (photo_key i, example_object)) [1000..<1500],
         locked = [], faults = [],
         trace = [S3List ''trip/'', S3Delete (map photo_key [0..<1000]), ReportDeleted 1000]\<rparr>)"
proof -
  let ?keys = "map photo_key [0..<1000]"
  let ?w1 = "(big_album 1500)\<lparr>trace := [S3List ''trip/'']\<rparr>"
  have 1: "length (bucket (big_album 1500)) = 1500"
    by (simp add: big_album_def)
  have l: "listR2Images ''trip'' (big_album 1500) = (Inr ?keys, ?w1)"
    using big_album_listing [of 1500] by (simp add: max_keys_def)
  have d: "delete_batches ?keys 0 0 ?w1
     = (Inr (0 + int (length ?keys)),
        ?w1\<lparr>bucket := filter (\<lambda>kv. fst kv \<notin> set ?keys) (bucket ?w1),
          faults := tl (faults ?w1), trace := trace ?w1 @ [S3Delete ?keys]\<rparr>)"
    by (rule delete_batches_one) (simp_all add: batchSize_def head_fault_def big_album_def)
  have b: "filter (\<lambda>kv. fst kv \<notin> set ?keys) (bucket ?w1)
     = map (\<lambda>i. (photo_key i, example_object)) [1000..<1500]"
    using big_album_remaining [of 1000 1500] by simp
  have 3: "deleteR2Images ''trip'' (big_album 1500)
     = (Inr True,
        \<lparr>bucket = map (\<lambda>i. (photo_key i, example_object)) [1000..<1500],
         locked = [], faults = [],
         trace = [S3List ''trip/'', S3Delete ?keys, ReportDeleted 1000]\<rparr>)"
    unfolding deleteR2Images_def l prod.case sum.case d b
    by (simp add: big_album_def emit_def)
  from 1 big_album_all_images [of 1500] 3 show ?thesis by blast
qed

section \<open>Creating and updating: the metadata part\<close>

lemma updateKvMetadata_returns: "\<exists>saved. fst (updateKvMetadata env albumId doc w) = Inr saved"
  by (auto simp: updateKvMetadata_def kv_update_eq split: fault.splits)

lemma updateKvMetadata_adds: "adds kv_update_event w (snd (updateKvMetadata env albumId doc w))"
  by (simp add: updateKvMetadata_def kv_update_eq adds_def new_events_def split: fault.splits)

lemma updateKvMetadata_frame: "bucket (snd (updateKvMetadata env albumId doc w)) = bucket w"
  by (simp add: updateKvMetadata_def kv_update_eq split: fault.splits)

lemma adds_no_s3_calls:
  "adds P w w' \<Longrightarrow> (\<And>e. P e \<Longrightarrow> \<not> is_s3_call e) \<Longrightarrow> filter is_s3_call (new_events w w') = []"
  by (auto simp: adds_def list_all_iff filter_empty_conv)

lemma kv_read_event_no_s3: "kv_read_event e \<Longrightarrow> \<not> is_s3_call e"
  by (cases e) auto

lemma kv_update_event_no_s3: "kv_update_event e \<Longrightarrow> \<not> is_s3_call e"
  by (cases e) auto

lemma manage_metadata_effect:
  fixes env ans albumId w
  defines "w' \<equiv> snd (manage_metadata env ans albumId w)"
  shows "fst (manage_metadata env ans albumId w) = Inr ()
     \<and> prefix (trace w) (trace w')
     \<and> filter is_s3_call (new_events w w') = [S3List (albumId @ ''/'')]
     \<and> bucket w' = bucket w"
proof -
  obtain m w1 where g: "getKvMetadata env albumId w = (Inr m, w1)"
    using getKvMetadata_returns [of env albumId w] by (cases "getKvMetadata env albumId w") auto
  obtain imgs w2 where l: "listR2Images albumId w1 = (Inr imgs, w2)"
    using listR2Images_result [of albumId w1] by (cases "listR2Images albumId w1") auto
  have a1: "adds kv_read_event w w1"
    using getKvMetadata_adds [of w env albumId] g by simp
  have a2: "adds list_event w1 w2"
    using listR2Images_adds [of w1 albumId] l by simp
  have s1: "filter is_s3_call (new_events w w1) = []"
    by (rule adds_no_s3_calls [OF a1]) (rule kv_read_event_no_s3)
  have s2: "filter is_s3_call (new_events w1 w2) = [S3List (albumId @ ''/'')]"
    using listR2Images_s3_calls [of w1 albumId] l by simp
  have n2: "new_events w w2 = new_events w w1 @ new_events w1 w2"
    using adds_new_events [OF a1 a2] by (rule conjunct1)
  have p2: "prefix (trace w) (trace w2)"
    using adds_new_events [OF a1 a2] by simp
  have b2: "bucket w2 = bucket w"
    using getKvMetadata_frame [of env albumId w] listR2Images_frame(1) [of albumId w1] g l by simp
  let ?w3 = "emit (Ask ''metadata'') w2"
  let ?w4 = "emit (Prompt ''confirmKv'' (confirmKv ans)) ?w3"
  let ?doc = "\<lparr>title = q_title (metadata ans), description = q_description (metadata ans),
      cover_key = q_coverImage (metadata ans), allow_downloads = q_allowDownloads (metadata ans),
      is_private = q_private (metadata ans)\<rparr>"
  have a4: "adds (\<lambda>e. True) w ?w4"
    using p2 by (auto simp: adds_def new_events_def prefix_def list_all_iff)
  have n4: "new_events w ?w4 = new_events w w2 @ [Ask ''metadata'', Prompt ''confirmKv'' (confirmKv ans)]"
    using p2 by (auto simp: new_events_def prefix_def)
  have s4: "filter is_s3_call (new_events w ?w4) = [S3List (albumId @ ''/'')]"
    by (simp add: n4 n2 s1 s2)
  show ?thesis
  proof (cases "confirmKv ans")
    case False
    then have "manage_metadata env ans albumId w = (Inr (), ?w4)"
      using g l by (simp add: manage_metadata_def Let_def)
    then show ?thesis
      unfolding w'_def using a4 s4 b2 by (simp add: adds_def)
  next
    case True
    obtain saved w5 where u: "updateKvMetadata env albumId ?doc ?w4 = (Inr saved, w5)"
      using updateKvMetadata_returns [of env albumId ?doc ?w4]
      by (cases "updateKvMetadata env albumId ?doc ?w4") auto
    have a5: "adds kv_update_event ?w4 w5"
      using updateKvMetadata_adds [of ?w4 env albumId ?doc] u by simp
    have s5: "filter is_s3_call (new_events ?w4 w5) = []"
      by (rule adds_no_s3_calls [OF a5]) (rule kv_update_event_no_s3)
    have n5: "new_events w w5 = new_events w ?w4 @ new_events ?w4 w5"
      using adds_new_events [OF a4 a5] by (rule conjunct1)
    have p5: "prefix (trace w) (trace w5)"
      using adds_new_events [OF a4 a5] by simp
    have b5: "bucket w5 = bucket w"
      using updateKvMetadata_frame [of env albumId ?doc ?w4] u b2 by simp
    have "manage_metadata env ans albumId w = (Inr (), w5)"
      using g l u True by (simp add: manage_metadata_def Let_def)
    then show ?thesis
      unfolding w'_def using p5 b5 by (simp add: n5 s4 s5)
  qed
qed

text \<open>
  Claim C3 as stated fails: with metadata asked for and no upload, \<open>manageAlbum\<close> lists
  the images of the album (to offer the cover choices).
\<close>

theorem manageAlbum_metadata_only_counterexample:
  "manageMetadata metadata_only \<and> \<not> uploadImages metadata_only
   \<and> filter is_s3_call
        (new_events trip_world (snd (manageAlbum trip_env metadata_only ''trip'' trip_world)))
       = [S3List ''trip/'']"
  by code_simp

text \<open>
  Claim C3, amended.  When metadata is asked for and no upload, \<open>manageAlbum\<close> makes
  exactly one call to the object store, the listing under the album's prefix; it makes no
  put and no delete call, and the bucket is the same after the run as before.
\<close>

theorem manageAlbum_metadata_only:
  "manageMetadata ans \<and> \<not> uploadImages ans \<longrightarrow>
     filter is_s3_call (new_events w (snd (manageAlbum env ans albumId w)))
       = [S3List (albumId @ ''/'')]
     \<and> bucket (snd (manageAlbum env ans albumId w)) = bucket w"
proof (intro impI, elim conjE)
  assume mm: "manageMetadata ans" and nu: "\<not> uploadImages ans"
  let ?w0 = "emit (Prompt ''manageMetadata'' True) w"
  obtain w1 where m: "manage_metadata env ans albumId ?w0 = (Inr (), w1)"
    using manage_metadata_effect [of env ans albumId ?w0]
    by (cases "manage_metadata env ans albumId ?w0") auto
  from manage_metadata_effect [of env ans albumId ?w0] m
  have p1: "prefix (trace ?w0) (trace w1)"
    and s1: "filter is_s3_call (new_events ?w0 w1) = [S3List (albumId @ ''/'')]"
    and b1: "bucket w1 = bucket w" by simp_all
  have r: "manageAlbum env ans albumId w = (Inr (), emit (Prompt ''uploadImages'' False) w1)"
    using mm nu m by (simp add: manageAlbum_def Let_def)
  from p1 obtain evs where t1: "trace w1 = trace w @ Prompt ''manageMetadata'' True # evs"
    by (auto simp: prefix_def)
  have "new_events ?w0 w1 = evs"
    using t1 by (simp add: new_events_def)
  with s1 have "filter is_s3_call evs = [S3List (albumId @ ''/'')]" by simp
  then have "filter is_s3_call (new_events w (emit (Prompt ''uploadImages'' False) w1))
      = [S3List (albumId @ ''/'')]"
    using t1 by (simp add: new_events_def)
  with b1 r show "filter is_s3_call (new_events w (snd (manageAlbum env ans albumId w)))
       = [S3List (albumId @ ''/'')]
     \<and> bucket (snd (manageAlbum env ans albumId w)) = bucket w"
    by simp
qed

theorem manageAlbum_metadata_only_witness:
  "manageMetadata metadata_only \<and> \<not> uploadImages metadata_only
   \<and> bucket (snd (manageAlbum trip_env metadata_only ''trip'' trip_world)) = bucket trip_world
   \<and> new_events trip_world (snd (manageAlbum trip_env metadata_only ''trip'' trip_world))
     = [Prompt ''manageMetadata'' True, KvGet ''album:trip'', S3List ''trip/'', Ask ''metadata'',
        Prompt ''confirmKv'' True,
        KvUpdate ''album:trip''
          \<lparr>title = ''Trip'', description = ''Two days'', cover_key = ''trip/a.jpg'',
           allow_downloads = True, is_private = False\<rparr>,
        Info ''Successfully updated KV metadata for album:trip'',
        Prompt ''uploadImages'' False]"
proof -
  have a: "manageMetadata metadata_only \<and> \<not> uploadImages metadata_only"
    by (simp add: metadata_only_def)
  have e: "new_events trip_world (snd (manageAlbum trip_env metadata_only ''trip'' trip_world))
     = [Prompt ''manageMetadata'' True, KvGet ''album:trip'', S3List ''trip/'', Ask ''metadata'',
        Prompt ''confirmKv'' True,
        KvUpdate ''album:trip''
          \<lparr>title = ''Trip'', description = ''Two days'', cover_key = ''trip/a.jpg'',
           allow_downloads = True, is_private = False\<rparr>,
        Info ''Successfully updated KV metadata for album:trip'',
        Prompt ''uploadImages'' False]"
    by code_simp
  from a manageAlbum_metadata_only [of metadata_only trip_world trip_env "''trip''"]
  have "bucket (snd (manageAlbum trip_env metadata_only ''trip'' trip_world)) = bucket trip_world"
    by blast
  with a e show ?thesis by blast
qed

section \<open>The upload loop\<close>

lemma inspect_eq:
  "inspect en env filename fileBuffer w =
     (Inr (dimensions_of en env filename fileBuffer),
      case dimension_error env fileBuffer of
        None \<Rightarrow> w
      | Some e \<Rightarrow> emit (Warn (dimension_warning en filename e)) w)"
  by (simp add: inspect_def dimensions_of_def dimension_error_def Let_def split: sum.splits)

lemma s3_put_eq:
  "s3_put key obj w =
     (case head_fault w of
        Rejects e \<Rightarrow> (Inl e, w\<lparr>faults := tl (faults w), trace := trace w @ [S3Put key obj]\<rparr>)
      | NoFault \<Rightarrow>
          (Inr (), w\<lparr>bucket := AList.update key obj (bucket w), faults := tl (faults w),
                     trace := trace w @ [S3Put key obj]\<rparr>))"
  by (simp add: s3_put_def next_fault_eq head_fault_def emit_def split: list.splits fault.splits)

lemma upload_files_Cons:
  "readFile env (path_join dir filename) = Inr fileBuffer \<Longrightarrow>
   upload_files en env dir albumId (filename # rest) uploadedCount w =
     upload_files en env dir albumId rest
       (if is_reject (head_fault w) then uploadedCount else uploadedCount + 1)
       (after_file en env albumId filename fileBuffer w)"
  by (simp add: inspect_eq s3_put_eq after_file_def head_fault_def emit_def Let_def
      split: option.splits fault.splits list.splits)

lemma upload_files_unreadable:
  "readFile env (path_join dir filename) = Inl e \<Longrightarrow>
   upload_files en env dir albumId (filename # rest) uploadedCount w = (Inl e, w)"
  by simp

lemma put_keys_append [simp]: "put_keys (xs @ ys) = put_keys xs @ put_keys ys"
  by (induction xs rule: put_keys.induct) simp_all

lemma is_warning_only: "is_warning e \<Longrightarrow> \<not> is_s3_put e \<and> \<not> is_error_log e"
  by (cases e) auto

lemma after_file_trace:
  "\<exists>warned. trace (after_file en env albumId filename fileBuffer w)
     = trace w @ warned
         @ S3Put (r2Key albumId filename)
             (put_input filename fileBuffer (dimensions_of en env filename fileBuffer))
         # (if is_reject (head_fault w)
            then [Error (''  ERROR: Failed to upload '' @ filename @ '': ''
                    @ message_text (case head_fault w of Rejects e \<Rightarrow> e))]
            else [])
     \<and> list_all is_warning warned"
  by (cases "head_fault w")
     (auto simp: after_file_def Let_def split: option.splits)

lemma after_file_faults: "faults (after_file en env albumId filename fileBuffer w) = tl (faults w)"
  by (simp add: after_file_def Let_def split: fault.splits)

lemma after_file_bucket:
  "bucket (after_file en env albumId filename fileBuffer w) =
     (if is_reject (head_fault w) then bucket w
      else AList.update (r2Key albumId filename)
             (put_input filename fileBuffer (dimensions_of en env filename fileBuffer)) (bucket w))"
  by (simp add: after_file_def Let_def split: fault.splits)

lemma after_file_new_events:
  fixes en env albumId filename fileBuffer w
  defines "wa \<equiv> after_file en env albumId filename fileBuffer w"
  shows "prefix (trace w) (trace wa)
     \<and> filter is_s3_put (new_events w wa)
        = [S3Put (r2Key albumId filename)
             (put_input filename fileBuffer (dimensions_of en env filename fileBuffer))]
     \<and> put_keys (new_events w wa) = [r2Key albumId filename]
     \<and> length (filter is_error_log (new_events w wa)) = (if is_reject (head_fault w) then 1 else 0)"
proof -
  from after_file_trace [of en env albumId filename fileBuffer w] obtain warned where
    t: "trace wa = trace w @ warned
         @ S3Put (r2Key albumId filename)
             (put_input filename fileBuffer (dimensions_of en env filename fileBuffer))
         # (if is_reject (head_fault w)
            then [Error (''  ERROR: Failed to upload '' @ filename @ '': ''
                    @ message_text (case head_fault w of Rejects e \<Rightarrow> e))]
            else [])"
    and wn: "list_all is_warning warned"
    unfolding wa_def by blast
  have w1: "filter is_s3_put warned = []" "filter is_error_log warned = []"
    using wn by (auto simp: filter_empty_conv list_all_iff dest: is_warning_only)
  have w2: "put_keys warned = []"
    using wn by (induction warned rule: put_keys.induct) auto
  show ?thesis
    using t w1 w2 by (simp add: new_events_def)
qed

lemma upload_files_puts:
  "prefix (trace w) (trace (snd (upload_files en env dir albumId files uploadedCount w)))
   \<and> filter is_s3_put (new_events w (snd (upload_files en env dir albumId files uploadedCount w)))
     = map (\<lambda>ko. S3Put (fst ko) (snd ko)) (planned_puts en env dir albumId files)"
proof (induction files arbitrary: uploadedCount w)
  case Nil
  show ?case by (simp add: new_events_def)
next
  case (Cons filename rest)
  show ?case
  proof (cases "readFile env (path_join dir filename)")
    case (Inl e)
    then show ?thesis by (simp add: new_events_def)
  next
    case (Inr fileBuffer)
    let ?wa = "after_file en env albumId filename fileBuffer w"
    let ?c = "if is_reject (head_fault w) then uploadedCount else uploadedCount + 1"
    let ?w' = "snd (upload_files en env dir albumId rest ?c ?wa)"
    note step = upload_files_Cons [OF Inr, of en albumId rest uploadedCount w]
    note a = after_file_new_events [of w en env albumId filename fileBuffer]
    note ih = Cons.IH [of ?wa ?c]
    have pa: "prefix (trace w) (trace ?wa)" using a by (rule conjunct1)
    have pi: "prefix (trace ?wa) (trace ?w')" using ih by (rule conjunct1)
    have n: "new_events w ?w' = new_events w ?wa @ new_events ?wa ?w'"
      using pa pi by (rule new_events_trans)
    have p: "prefix (trace w) (trace ?w')"
      using pa pi by (rule prefix_order.trans)
    have fa: "filter is_s3_put (new_events w ?wa)
        = [S3Put (r2Key albumId filename)
             (put_input filename fileBuffer (dimensions_of en env filename fileBuffer))]"
      using a by simp
    have fi: "filter is_s3_put (new_events ?wa ?w')
        = map (\<lambda>ko. S3Put (fst ko) (snd ko)) (planned_puts en env dir albumId rest)"
      using ih by (rule conjunct2)
    show ?thesis
      unfolding step using p by (simp add: n fa fi Inr)
  qed
qed

lemma planned_puts_readable:
  "list_all (readable env dir) files \<Longrightarrow>
   map fst (planned_puts en env dir albumId files) = map (r2Key albumId) files"
  by (induction files) (auto simp: readable_def split: sum.splits)

lemma put_keys_filter: "put_keys (filter is_s3_put evs) = put_keys evs"
  by (induction evs rule: put_keys.induct) simp_all

lemma put_keys_planned: "put_keys (map (\<lambda>ko. S3Put (fst ko) (snd ko)) P) = map fst P"
  by (induction P) simp_all

lemma filter_reject_take_Suc:
  "filter is_reject (take (Suc n) fs)
     = (if is_reject (case fs of [] \<Rightarrow> NoFault | f # r \<Rightarrow> f) then [hd fs] else [])
       @ filter is_reject (take n (tl fs))"
  by (cases fs) auto

lemma upload_files_count:
  assumes "list_all (readable env dir) files"
  shows "fst (upload_files en env dir albumId files uploadedCount w)
     = Inr (uploadedCount + int (length files)
            - int (length (filter is_error_log
                (new_events w (snd (upload_files en env dir albumId files uploadedCount w))))))
   \<and> length (filter is_error_log
        (new_events w (snd (upload_files en env dir albumId files uploadedCount w))))
     = length (filter is_reject (take (length files) (faults w)))"
  using assms
proof (induction files arbitrary: uploadedCount w)
  case Nil
  show ?case by (simp add: new_events_def)
next
  case (Cons filename rest)
  from Cons.prems obtain fileBuffer where r: "readFile env (path_join dir filename) = Inr fileBuffer"
    by (auto simp: readable_def split: sum.splits)
  from Cons.prems have rest: "list_all (readable env dir) rest" by simp
  let ?wa = "after_file en env albumId filename fileBuffer w"
  let ?c = "if is_reject (head_fault w) then uploadedCount else uploadedCount + 1"
  let ?w' = "snd (upload_files en env dir albumId rest ?c ?wa)"
  note step = upload_files_Cons [OF r, of en albumId rest uploadedCount w]
  note a = after_file_new_events [of w en env albumId filename fileBuffer]
  note ih = Cons.IH [OF rest, of ?c ?wa]
  have pr: "prefix (trace ?wa) (trace ?w')"
    using upload_files_puts [of ?wa en env dir albumId rest ?c] by simp
  have pa: "prefix (trace w) (trace ?wa)" using a by (rule conjunct1)
  have n: "new_events w ?w' = new_events w ?wa @ new_events ?wa ?w'"
    using pa pr by (rule new_events_trans)
  have ea: "length (filter is_error_log (new_events w ?wa)) = (if is_reject (head_fault w) then 1 else 0)"
    using a by simp
  have f: "filter is_reject (take (Suc (length rest)) (faults w))
     = (if is_reject (head_fault w) then [hd (faults w)] else [])
       @ filter is_reject (take (length rest) (tl (faults w)))"
    unfolding head_fault_def by (rule filter_reject_take_Suc)
  from ih have i1: "fst (upload_files en env dir albumId rest ?c ?wa)
     = Inr (?c + int (length rest) - int (length (filter is_error_log (new_events ?wa ?w'))))"
    by (rule conjunct1)
  from ih have i2: "length (filter is_error_log (new_events ?wa ?w'))
     = length (filter is_reject (take (length rest) (tl (faults w))))"
    by (simp add: after_file_faults)
  show ?case
    unfolding step by (simp add: i1 i2 n ea f)
qed

lemma upload_images_all_readable:
  assumes "readdir env dir = Inr files"
    and "filter isImageName files \<noteq> []"
    and "list_all (readable env dir) (filter isImageName files)"
  shows "fst (upload_images en env dir albumId w) = Inr True
    \<and> put_keys (new_events w (snd (upload_images en env dir albumId w)))
        = map (r2Key albumId) (filter isImageName files)
    \<and> length (filter is_error_log (new_events w (snd (upload_images en env dir albumId w))))
        = length (filter is_reject (take (length (filter isImageName files)) (faults w)))
    \<and> (\<exists>succeeded failed.
          last (new_events w (snd (upload_images en env dir albumId w)))
            = Summary (int (length (filter isImageName files))) succeeded failed
          \<and> int (length (filter isImageName files)) = succeeded + failed
          \<and> 0 \<le> succeeded
          \<and> failed = int (length (filter is_reject
                (take (length (filter isImageName files)) (faults w)))))"
proof -
  let ?imgs = "filter isImageName files"
  obtain v x where vx: "upload_files en env dir albumId ?imgs 0 w = (v, x)"
    by (cases "upload_files en env dir albumId ?imgs 0 w")
  let ?errs = "length (filter is_error_log (new_events w x))"
  let ?sum = "Summary (int (length ?imgs)) (int (length ?imgs) - int ?errs) (int ?errs)"
  have c: "v = Inr (int (length ?imgs) - int ?errs)"
    and e: "?errs = length (filter is_reject (take (length ?imgs) (faults w)))"
    using upload_files_count [OF assms(3), of en albumId 0 w] by (simp_all add: vx)
  have p: "prefix (trace w) (trace x)"
    and s: "filter is_s3_put (new_events w x)
       = map (\<lambda>ko. S3Put (fst ko) (snd ko)) (planned_puts en env dir albumId ?imgs)"
    using upload_files_puts [of w en env dir albumId ?imgs 0] by (simp_all add: vx)
  have "put_keys (new_events w x) = put_keys (filter is_s3_put (new_events w x))"
    by (simp only: put_keys_filter)
  also have "\<dots> = map fst (planned_puts en env dir albumId ?imgs)"
    by (simp only: s put_keys_planned)
  also have "\<dots> = map (r2Key albumId) ?imgs"
    by (rule planned_puts_readable [OF assms(3)])
  finally have k: "put_keys (new_events w x) = map (r2Key albumId) ?imgs" .
  have u: "upload_images en env dir albumId w = (Inr True, emit ?sum x)"
    using assms(1,2) by (simp add: upload_images_def Let_def vx c)
  have n: "new_events w (emit ?sum x) = new_events w x @ [?sum]"
    using p by (rule new_events_emit)
  have le: "?errs \<le> length ?imgs"
    unfolding e by (rule le_trans [OF length_filter_le]) simp
  have 1: "fst (upload_images en env dir albumId w) = Inr True"
    by (simp add: u)
  have 2: "put_keys (new_events w (snd (upload_images en env dir albumId w)))
        = map (r2Key albumId) ?imgs"
    by (simp add: u n k)
  have 3: "length (filter is_error_log (new_events w (snd (upload_images en env dir albumId w))))
        = length (filter is_reject (take (length ?imgs) (faults w)))"
    by (simp add: u n e [symmetric])
  have 4: "last (new_events w (snd (upload_images en env dir albumId w)))
            = Summary (int (length ?imgs)) (int (length ?imgs) - int ?errs) (int ?errs)"
    by (simp add: u n)
  have "\<exists>succeeded failed.
          last (new_events w (snd (upload_images en env dir albumId w)))
            = Summary (int (length ?imgs)) succeeded failed
          \<and> int (length ?imgs) = succeeded + failed
          \<and> 0 \<le> succeeded
          \<and> failed = int (length (filter is_reject (take (length ?imgs) (faults w))))"
    using 4 le e by (intro exI [of _ "int (length ?imgs) - int ?errs"] exI [of _ "int ?errs"]) simp
  with 1 2 3 show ?thesis by (intro conjI)
qed

section \<open>Uploading the same folder again\<close>

lemma planned_object_r2Key:
  "readFile env (path_join dir filename) = Inr fileBuffer \<Longrightarrow>
   planned_object en env dir albumId (r2Key albumId filename)
     = Some (put_input filename fileBuffer (dimensions_of en env filename fileBuffer))"
  by (simp add: planned_object_def r2Key_def)

lemma planned_puts_object:
  "ko \<in> set (planned_puts en env dir albumId files) \<Longrightarrow>
   planned_object en env dir albumId (fst ko) = Some (snd ko)"
  by (induction files) (auto simp: planned_object_r2Key split: sum.splits)

lemma upload_files_stores:
  assumes "filter is_error_log
      (new_events w (snd (upload_files en env dir albumId files uploadedCount w))) = []"
    and "\<forall>k \<in> K. map_of (bucket w) k = planned_object en env dir albumId k"
  shows "\<forall>k \<in> K \<union> fst ` set (planned_puts en env dir albumId files).
     map_of (bucket (snd (upload_files en env dir albumId files uploadedCount w))) k
       = planned_object en env dir albumId k"
  using assms
proof (induction files arbitrary: uploadedCount w K)
  case Nil
  then show ?case by simp
next
  case (Cons filename rest)
  show ?case
  proof (cases "readFile env (path_join dir filename)")
    case (Inl e)
    with Cons.prems(2) show ?thesis by simp
  next
    case (Inr fileBuffer)
    let ?wa = "after_file en env albumId filename fileBuffer w"
    let ?c = "if is_reject (head_fault w) then uploadedCount else uploadedCount + 1"
    let ?w' = "snd (upload_files en env dir albumId rest ?c ?wa)"
    let ?k = "r2Key albumId filename"
    let ?o = "put_input filename fileBuffer (dimensions_of en env filename fileBuffer)"
    note step = upload_files_Cons [OF Inr, of en albumId rest uploadedCount w]
    note a = after_file_new_events [of w en env albumId filename fileBuffer]
    have pa: "prefix (trace w) (trace ?wa)" using a by (rule conjunct1)
    have pr: "prefix (trace ?wa) (trace ?w')"
      using upload_files_puts [of ?wa en env dir albumId rest ?c] by (rule conjunct1)
    have n: "new_events w ?w' = new_events w ?wa @ new_events ?wa ?w'"
      using pa pr by (rule new_events_trans)
    from Cons.prems(1) have "filter is_error_log (new_events w ?w') = []"
      unfolding step .
    then have e1: "filter is_error_log (new_events w ?wa) = []"
      and e2: "filter is_error_log (new_events ?wa ?w') = []"
      unfolding n by simp_all
    have "length (filter is_error_log (new_events w ?wa)) = (if is_reject (head_fault w) then 1 else 0)"
      using a by simp
    with e1 have ok: "\<not> is_reject (head_fault w)"
      by (simp split: if_splits)
    then have b: "bucket ?wa = AList.update ?k ?o (bucket w)"
      by (simp add: after_file_bucket)
    have "\<forall>k \<in> insert ?k K. map_of (bucket ?wa) k = planned_object en env dir albumId k"
      using Cons.prems(2) planned_object_r2Key [OF Inr, of en albumId]
      by (simp add: b update_conv')
    from Cons.IH [OF e2 this]
    have "\<forall>k \<in> insert ?k K \<union> fst ` set (planned_puts en env dir albumId rest).
       map_of (bucket ?w') k = planned_object en env dir albumId k" .
    then show ?thesis
      unfolding step by (simp add: Inr)
  qed
qed

lemma upload_files_overwrites:
  assumes "\<forall>ko \<in> set (planned_puts en env dir albumId files).
      map_of (bucket v) (fst ko) = Some (snd ko)"
  shows "bucket (snd (upload_files en env dir albumId files uploadedCount v)) = bucket v"
  using assms
proof (induction files arbitrary: uploadedCount v)
  case Nil
  show ?case by simp
next
  case (Cons filename rest)
  show ?case
  proof (cases "readFile env (path_join dir filename)")
    case (Inl e)
    then show ?thesis by simp
  next
    case (Inr fileBuffer)
    let ?va = "after_file en env albumId filename fileBuffer v"
    let ?c = "if is_reject (head_fault v) then uploadedCount else uploadedCount + 1"
    let ?k = "r2Key albumId filename"
    let ?o = "put_input filename fileBuffer (dimensions_of en env filename fileBuffer)"
    note step = upload_files_Cons [OF Inr, of en albumId rest uploadedCount v]
    from Cons.prems Inr have here: "map_of (bucket v) ?k = Some ?o"
      and rest: "\<forall>ko \<in> set (planned_puts en env dir albumId rest).
        map_of (bucket v) (fst ko) = Some (snd ko)"
      by simp_all
    have b: "bucket ?va = bucket v"
      using here by (simp add: after_file_bucket update_triv)
    from rest have "\<forall>ko \<in> set (planned_puts en env dir albumId rest).
        map_of (bucket ?va) (fst ko) = Some (snd ko)"
      by (simp only: b)
    from Cons.IH [OF this] b show ?thesis
      unfolding step by simp
  qed
qed

lemma upload_files_twice:
  assumes "filter is_error_log
      (new_events w (snd (upload_files en env dir albumId files uploadedCount w))) = []"
    and "bucket v = bucket (snd (upload_files en env dir albumId files uploadedCount w))"
  shows "bucket (snd (upload_files en env dir albumId files uploadedCount' v)) = bucket v"
proof (rule upload_files_overwrites, rule ballI)
  fix ko
  assume ko: "ko \<in> set (planned_puts en env dir albumId files)"
  have "\<forall>k \<in> {} \<union> fst ` set (planned_puts en env dir albumId files).
     map_of (bucket (snd (upload_files en env dir albumId files uploadedCount w))) k
       = planned_object en env dir albumId k"
    by (rule upload_files_stores [OF assms(1)]) simp
  with ko have "map_of (bucket v) (fst ko) = planned_object en env dir albumId (fst ko)"
    unfolding assms(2) by simp
  with planned_puts_object [OF ko] show "map_of (bucket v) (fst ko) = Some (snd ko)"
    by simp
qed

lemma upload_images_via_files:
  assumes "readdir env dir = Inr files" and "filter isImageName files \<noteq> []"
  shows "bucket (snd (upload_images en env dir albumId w))
       = bucket (snd (upload_files en env dir albumId (filter isImageName files) 0 w))
     \<and> filter is_error_log (new_events w (snd (upload_images en env dir albumId w)))
       = filter is_error_log
           (new_events w (snd (upload_files en env dir albumId (filter isImageName files) 0 w)))
     \<and> filter is_s3_put (new_events w (snd (upload_images en env dir albumId w)))
       = map (\<lambda>ko. S3Put (fst ko) (snd ko))
           (planned_puts en env dir albumId (filter isImageName files))"
proof -
  let ?imgs = "filter isImageName files"
  obtain v x where vx: "upload_files en env dir albumId ?imgs 0 w = (v, x)"
    by (cases "upload_files en env dir albumId ?imgs 0 w")
  have p: "prefix (trace w) (trace x)"
    and s: "filter is_s3_put (new_events w x)
       = map (\<lambda>ko. S3Put (fst ko) (snd ko)) (planned_puts en env dir albumId ?imgs)"
    using upload_files_puts [of w en env dir albumId ?imgs 0] by (simp_all add: vx)
  show ?thesis
  proof (cases v)
    case (Inl e)
    then have "upload_images en env dir albumId w = (Inl e, x)"
      using assms vx by (simp add: upload_images_def Let_def)
    then show ?thesis using s by (simp add: vx)
  next
    case (Inr c)
    let ?sum = "Summary (int (length ?imgs)) c (int (length ?imgs) - c)"
    have "upload_images en env dir albumId w = (Inr True, emit ?sum x)"
      using assms vx Inr by (simp add: upload_images_def Let_def)
    moreover have "new_events w (emit ?sum x) = new_events w x @ [?sum]"
      using p by (rule new_events_emit)
    ultimately show ?thesis using s by (simp add: vx)
  qed
qed

text \<open>
  Claim C8 as stated fails: when a put of the first run is rejected and the same put goes
  through in the second run, the bucket after the second run holds a key that it did not
  hold after the first.
\<close>

theorem upload_images_idempotent_counterexample:
  "map fst (bucket (snd (upload_images AlbumCli example_env ''albums/trip'' ''trip'' flaky_world)))
     = [''trip/portrait-b.png'']
   \<and> map fst (bucket (snd (upload_images AlbumCli example_env ''albums/trip'' ''trip''
        (snd (upload_images AlbumCli example_env ''albums/trip'' ''trip'' flaky_world)))))
     = [''trip/portrait-b.png'', ''trip/a.jpg'']"
  by code_simp

text \<open>
  Claim C8, amended.  When the first run of the upload phase logs no failed upload, a
  second run over the same folder (same environment) leaves the bucket exactly as the
  first run left it, whatever happens to its own puts, and it issues the same put calls,
  with the same keys and objects, as the first run did.
\<close>

theorem upload_images_idempotent:
  "filter is_error_log (new_events w (snd (upload_images en env dir albumId w))) = [] \<longrightarrow>
     bucket (snd (upload_images en env dir albumId (snd (upload_images en env dir albumId w))))
       = bucket (snd (upload_images en env dir albumId w))
     \<and> filter is_s3_put
         (new_events (snd (upload_images en env dir albumId w))
            (snd (upload_images en env dir albumId (snd (upload_images en env dir albumId w)))))
       = filter is_s3_put (new_events w (snd (upload_images en env dir albumId w)))"
proof
  let ?w1 = "snd (upload_images en env dir albumId w)"
  let ?w2 = "snd (upload_images en env dir albumId ?w1)"
  assume ne: "filter is_error_log (new_events w ?w1) = []"
  show "bucket ?w2 = bucket ?w1
     \<and> filter is_s3_put (new_events ?w1 ?w2) = filter is_s3_put (new_events w ?w1)"
  proof (cases "readdir env dir")
    case (Inl e)
    then have "\<And>u. upload_images en env dir albumId u = (Inl e, u)"
      by (simp add: upload_images_def)
    then show ?thesis by (simp add: new_events_def)
  next
    case (Inr files)
    let ?imgs = "filter isImageName files"
    show ?thesis
    proof (cases "?imgs = []")
      case True
      then have "\<And>u. upload_images en env dir albumId u
          = (Inr False, emit (Warn (no_images_warning en dir)) u)"
        using Inr by (simp add: upload_images_def)
      then show ?thesis by (simp add: new_events_def)
    next
      case False
      note v1 = upload_images_via_files [OF Inr False, of en albumId w]
      note v2 = upload_images_via_files [OF Inr False, of en albumId ?w1]
      have b1: "bucket ?w1 = bucket (snd (upload_files en env dir albumId ?imgs 0 w))"
        using v1 by (rule conjunct1)
      have e1: "filter is_error_log
          (new_events w (snd (upload_files en env dir albumId ?imgs 0 w))) = []"
        using v1 ne by simp
      have "bucket (snd (upload_files en env dir albumId ?imgs 0 ?w1)) = bucket ?w1"
        by (rule upload_files_twice [OF e1 b1])
      then have "bucket ?w2 = bucket ?w1"
        using v2 by simp
      moreover have "filter is_s3_put (new_events ?w1 ?w2) = filter is_s3_put (new_events w ?w1)"
        using v1 v2 by simp
      ultimately show ?thesis by (rule conjI)
    qed
  qed
qed

theorem upload_images_idempotent_witness:
  "filter is_error_log
      (new_events empty_world
         (snd (upload_images AlbumCli example_env ''albums/trip'' ''trip'' empty_world))) = []
   \<and> map fst (bucket (snd (upload_images AlbumCli example_env ''albums/trip'' ''trip'' empty_world)))
       = [''trip/a.jpg'', ''trip/portrait-b.png'']
   \<and> bucket (snd (upload_images AlbumCli example_env ''albums/trip'' ''trip''
        (snd (upload_images AlbumCli example_env ''albums/trip'' ''trip'' empty_world))))
       = bucket (snd (upload_images AlbumCli example_env ''albums/trip'' ''trip'' empty_world))"
proof -
  have a: "filter is_error_log
      (new_events empty_world
         (snd (upload_images AlbumCli example_env ''albums/trip'' ''trip'' empty_world))) = []"
    by code_simp
  have b: "map fst (bucket (snd (upload_images AlbumCli example_env ''albums/trip'' ''trip'' empty_world)))
       = [''trip/a.jpg'', ''trip/portrait-b.png'']"
    by code_simp
  from a upload_images_idempotent [of empty_world AlbumCli example_env "''albums/trip''" "''trip''"]
  have "bucket (snd (upload_images AlbumCli example_env ''albums/trip'' ''trip''
        (snd (upload_images AlbumCli example_env ''albums/trip'' ''trip'' empty_world))))
       = bucket (snd (upload_images AlbumCli example_env ''albums/trip'' ''trip'' empty_world))"
    by blast
  with a b show ?thesis by (intro conjI)
qed

section \<open>Further properties\<close>

text \<open>
  When the call is not rejected and the album has at most 1000 keys under its prefix,
  \<open>listR2Images\<close> returns all the image keys under the prefix, in listing order.
\<close>

theorem listR2Images_complete_within_page:
  "head_fault w = NoFault
   \<and> length (filter (prefix (albumId @ ''/'')) (map fst (bucket w))) \<le> 1000 \<longrightarrow>
     fst (listR2Images albumId w)
       = Inr (filter (\<lambda>k. prefix (albumId @ ''/'') k \<and> isImageName k) (map fst (bucket w)))"
  by (simp add: listR2Images_eq max_keys_def)

theorem listR2Images_complete_within_page_witness:
  "head_fault trip_world = NoFault
   \<and> length (filter (prefix (''trip'' @ ''/'')) (map fst (bucket trip_world))) \<le> 1000
   \<and> fst (listR2Images ''trip'' trip_world) = Inr [''trip/a.jpg'']"
proof -
  have h: "head_fault trip_world = NoFault"
    by (simp add: head_fault_def trip_world_def)
  have l: "length (filter (prefix (''trip'' @ ''/'')) (map fst (bucket trip_world))) \<le> 1000"
    by (simp add: trip_world_def)
  have f: "filter (\<lambda>k. prefix (''trip'' @ ''/'') k \<and> isImageName k) (map fst (bucket trip_world))
     = [''trip/a.jpg'']"
    by code_simp
  from h l listR2Images_complete_within_page [of trip_world "''trip''"]
  have "fst (listR2Images ''trip'' trip_world)
     = Inr (filter (\<lambda>k. prefix (''trip'' @ ''/'') k \<and> isImageName k) (map fst (bucket trip_world)))"
    by blast
  with h l show ?thesis by (simp only: f)
qed

text \<open>
  Every batch \<open>deleteR2Images\<close> passes to DeleteObjects holds at most 1000 keys, whatever
  calls are rejected and whatever the bucket holds.
\<close>

theorem deleteR2Images_batches_bounded:
  "\<forall>batch. S3Delete batch \<in> set (new_events w (snd (deleteR2Images albumId w)))
     \<longrightarrow> length batch \<le> 1000"
proof (intro allI impI)
  fix batch
  assume "S3Delete batch \<in> set (new_events w (snd (deleteR2Images albumId w)))"
  with deleteR2Images_adds [of albumId w] have "delete_event albumId (S3Delete batch)"
    by (auto simp: adds_def list_all_iff)
  then show "length batch \<le> 1000" by (simp add: batchSize_def)
qed

theorem deleteR2Images_batches_bounded_witness:
  "S3Delete [''trip/a.jpg''] \<in> set (new_events trip_world (snd (deleteR2Images ''trip'' trip_world)))
   \<and> length [''trip/a.jpg''] \<le> (1000::nat)"
proof -
  have "S3Delete [''trip/a.jpg'']
      \<in> set (new_events trip_world (snd (deleteR2Images ''trip'' trip_world)))"
    by code_simp
  with deleteR2Images_batches_bounded [of trip_world "''trip''"] show ?thesis by blast
qed

text \<open>
  Which puts a run of the upload phase attempts, with which keys and objects, depends on
  the folder and the environment only: not on the store, and not on which puts are
  rejected.
\<close>

lemma upload_images_puts_same:
  "filter is_s3_put (new_events w (snd (upload_images en env dir albumId w)))
   = filter is_s3_put (new_events v (snd (upload_images en env dir albumId v)))"
proof (cases "readdir env dir")
  case (Inl e)
  then have "\<And>u. upload_images en env dir albumId u = (Inl e, u)"
    by (simp add: upload_images_def)
  then show ?thesis by (simp add: new_events_def)
next
  case (Inr files)
  show ?thesis
  proof (cases "filter isImageName files = []")
    case True
    then have "\<And>u. upload_images en env dir albumId u
        = (Inr False, emit (Warn (no_images_warning en dir)) u)"
      using Inr by (simp add: upload_images_def)
    then show ?thesis by (simp add: new_events_def)
  next
    case False
    from upload_images_via_files [OF Inr False, of en albumId w]
      upload_images_via_files [OF Inr False, of en albumId v]
    show ?thesis by simp
  qed
qed

section \<open>The upload loop goes on after a failed upload\<close>

lemma upload_files_Inr_iff:
  "(\<exists>c. fst (upload_files en env dir albumId files uploadedCount w) = Inr c)
     \<longleftrightarrow> list_all (readable env dir) files"
proof (induction files arbitrary: uploadedCount w)
  case Nil
  show ?case by simp
next
  case (Cons filename rest)
  show ?case
  proof (cases "readFile env (path_join dir filename)")
    case (Inl e)
    then show ?thesis by (simp add: readable_def)
  next
    case (Inr fileBuffer)
    note step = upload_files_Cons [OF Inr, of en albumId rest uploadedCount w]
    show ?thesis
      unfolding step using Cons.IH Inr by (simp add: readable_def)
  qed
qed

lemma upload_images_runs_iff:
  assumes "readdir env dir = Inr files"
  shows "fst (upload_images en env dir albumId w) = Inr True
     \<longleftrightarrow> filter isImageName files \<noteq> [] \<and> list_all (readable env dir) (filter isImageName files)"
proof (cases "filter isImageName files = []")
  case True
  then show ?thesis using assms by (simp add: upload_images_def)
next
  case False
  let ?imgs = "filter isImageName files"
  obtain v x where vx: "upload_files en env dir albumId ?imgs 0 w = (v, x)"
    by (cases "upload_files en env dir albumId ?imgs 0 w")
  have "(\<exists>c. v = Inr c) \<longleftrightarrow> list_all (readable env dir) ?imgs"
    using upload_files_Inr_iff [of en env dir albumId ?imgs 0 w] by (simp add: vx)
  then show ?thesis
    using assms False vx by (cases v) (simp_all add: upload_images_def Let_def)
qed

text \<open>
  Claim C7.  In the upload loop of either script, for a folder that can be listed: which
  puts are attempted does not depend on which puts are rejected (nor on the store), so a
  failed upload never keeps a later file from being processed.  The run goes through the
  files and ends normally exactly when there is an image file and every image file can be
  read; then, whatever puts are rejected, a put is attempted for every image file in order,
  every rejected put is logged as one error, and the tallies printed last are: processed,
  the number of image files; failed, the number of rejected puts; succeeded, the rest, so
  that processed = succeeded + failed.
\<close>

theorem upload_images_continues:
  assumes "readdir env dir = Inr files"
  shows "filter is_s3_put (new_events w (snd (upload_images en env dir albumId w)))
        = filter is_s3_put (new_events v (snd (upload_images en env dir albumId v)))
    \<and> (fst (upload_images en env dir albumId w) = Inr True
        \<longleftrightarrow> filter isImageName files \<noteq> []
            \<and> list_all (readable env dir) (filter isImageName files))
    \<and> (fst (upload_images en env dir albumId w) = Inr True \<longrightarrow>
          put_keys (new_events w (snd (upload_images en env dir albumId w)))
            = map (r2Key albumId) (filter isImageName files)
          \<and> length (filter is_error_log (new_events w (snd (upload_images en env dir albumId w))))
            = length (filter is_reject (take (length (filter isImageName files)) (faults w)))
          \<and> (\<exists>succeeded failed.
                last (new_events w (snd (upload_images en env dir albumId w)))
                  = Summary (int (length (filter isImageName files))) succeeded failed
                \<and> int (length (filter isImageName files)) = succeeded + failed
                \<and> 0 \<le> succeeded
                \<and> failed = int (length (filter is_reject
                      (take (length (filter isImageName files)) (faults w))))))"
proof (intro conjI impI)
  show "filter is_s3_put (new_events w (snd (upload_images en env dir albumId w)))
        = filter is_s3_put (new_events v (snd (upload_images en env dir albumId v)))"
    by (rule upload_images_puts_same)
next
  show "fst (upload_images en env dir albumId w) = Inr True
        \<longleftrightarrow> filter isImageName files \<noteq> []
            \<and> list_all (readable env dir) (filter isImageName files)"
    by (rule upload_images_runs_iff [OF assms])
next
  assume "fst (upload_images en env dir albumId w) = Inr True"
  then have i: "filter isImageName files \<noteq> []"
    and r: "list_all (readable env dir) (filter isImageName files)"
    using upload_images_runs_iff [OF assms, of en albumId w] by simp_all
  note all = upload_images_all_readable [OF assms i r, of en albumId w]
  from all show "put_keys (new_events w (snd (upload_images en env dir albumId w)))
            = map (r2Key albumId) (filter isImageName files)"
    by (rule conjunct1 [OF conjunct2])
  from all show "length (filter is_error_log (new_events w (snd (upload_images en env dir albumId w))))
            = length (filter is_reject (take (length (filter isImageName files)) (faults w)))"
    by (rule conjunct1 [OF conjunct2 [OF conjunct2]])
  from all show "\<exists>succeeded failed.
                last (new_events w (snd (upload_images en env dir albumId w)))
                  = Summary (int (length (filter isImageName files))) succeeded failed
                \<and> int (length (filter isImageName files)) = succeeded + failed
                \<and> 0 \<le> succeeded
                \<and> failed = int (length (filter is_reject
                      (take (length (filter isImageName files)) (faults w))))"
    by (rule conjunct2 [OF conjunct2 [OF conjunct2]])
qed

theorem upload_images_continues_witness:
  "readdir example_env ''albums/trip'' = Inr [''a.jpg'', ''portrait-b.png'', ''notes.txt'']
   \<and> filter isImageName [''a.jpg'', ''portrait-b.png'', ''notes.txt''] = [''a.jpg'', ''portrait-b.png'']
   \<and> faults flaky_world = [Rejects (JsError None (Some ''socket hang up''))]
   \<and> fst (upload_images Uploader example_env ''albums/trip'' ''trip'' flaky_world) = Inr True
   \<and> put_keys (new_events flaky_world
         (snd (upload_images Uploader example_env ''albums/trip'' ''trip'' flaky_world)))
       = [''trip/a.jpg'', ''trip/portrait-b.png'']
   \<and> last (new_events flaky_world
         (snd (upload_images Uploader example_env ''albums/trip'' ''trip'' flaky_world)))
       = Summary 2 1 1"
proof -
  let ?files = "[''a.jpg'', ''portrait-b.png'', ''notes.txt'']"
  have a: "readdir example_env ''albums/trip'' = Inr ?files"
    by (simp add: example_env_def)
  have f: "filter isImageName ?files = [''a.jpg'', ''portrait-b.png'']"
    by code_simp
  have d: "faults flaky_world = [Rejects (JsError None (Some ''socket hang up''))]"
    by (simp add: flaky_world_def empty_world_def)
  have t: "fst (upload_images Uploader example_env ''albums/trip'' ''trip'' flaky_world) = Inr True"
    by code_simp
  have l: "last (new_events flaky_world
         (snd (upload_images Uploader example_env ''albums/trip'' ''trip'' flaky_world)))
       = Summary 2 1 1"
    by code_simp
  from t upload_images_continues [OF a, of flaky_world Uploader "''trip''" flaky_world]
  have "put_keys (new_events flaky_world
         (snd (upload_images Uploader example_env ''albums/trip'' ''trip'' flaky_world)))
       = map (r2Key ''trip'') (filter isImageName ?files)"
    by blast
  then have k: "put_keys (new_events flaky_world
         (snd (upload_images Uploader example_env ''albums/trip'' ''trip'' flaky_world)))
       = [''trip/a.jpg'', ''trip/portrait-b.png'']"
    unfolding f by (simp add: r2Key_def)
  from a f d t k l show ?thesis
    by (intro conjI)
qed

end
